theory Spec2Isabelle
  imports Complex_Main
begin

section \<open>The program\<close>

text \<open>
  The development models \<^verbatim>\<open>mpibackup10.c\<close>, the MPI/OpenMP heat-diffusion solver.
  Conventions of the embedding:
  \<^item> a C \<^verbatim>\<open>int\<close> is an \<^typ>\<open>int\<close>; the values that occur (grid sizes, ranks, loop
    counters) stay far below the 32-bit limit for the grids the program is built for, and
    no wrap-around is modelled;
  \<^item> a \<^verbatim>\<open>float\<close> is a \<^typ>\<open>real\<close>: the arithmetic of the stencil is idealised, rounding is
    not modelled, and the coefficients \<^verbatim>\<open>{0.1, 0.1}\<close> are the reals \<open>1/10\<close>;
  \<^item> a \<^verbatim>\<open>float *\<close> into a flattened two-dimensional array is a store from offsets
    (relative to the base pointer) to values; the theorems state which offsets are read and
    written, so that accesses outside the allocated \<open>(rows+2) \<times> (columns+2)\<close> floats are visible;
  \<^item> the OpenMP work-sharing loops are run sequentially: every iteration writes one cell of
    the next buffer and reads only the current buffer, so the schedule does not change the result
    (the two buffers are distinct arrays, \<^verbatim>\<open>local[newiz]\<close> and \<^verbatim>\<open>local[1-newiz]\<close>).
\<close>

subsection \<open>Constants and parameters\<close>

type_synonym buf = "int \<Rightarrow> real"

record Parms =
  cx :: real
  cy :: real

definition parms :: Parms where
  "parms = \<lparr>cx = 1 / 10, cy = 1 / 10\<rparr>"

definition NXPROB :: int where
  "NXPROB = 256"

definition NYPROB :: int where
  "NYPROB = 320"

definition STEPS :: int where
  "STEPS = 100"

definition MASTER :: int where
  "MASTER = 0"

text \<open>
  Modelled from the spec: \<^verbatim>\<open>MPI_PROC_NULL\<close> is declared in \<^verbatim>\<open>mpi.h\<close>, which is not part of
  the repository. The spec calls it a reserved "no neighbor" sentinel distinct from any valid
  worker identity; MPI makes it a negative constant, and valid ranks are \<open>0, 1, \<dots>\<close>.
\<close>

definition MPI_PROC_NULL :: int where
  "MPI_PROC_NULL = - 1"

subsection \<open>The stencil kernel\<close>

text \<open>
  The right-hand side of the assignment that \<^verbatim>\<open>updateInternal\<close> and the four loops of
  \<^verbatim>\<open>updateExternal\<close> repeat verbatim; \<open>ny\<close> is the length of a buffer row (halo included).
\<close>

definition stencil :: "int \<Rightarrow> buf \<Rightarrow> int \<Rightarrow> int \<Rightarrow> real" where
  "stencil ny u1 ix iy =
     u1 (ix * ny + iy) +
       cx parms * (u1 ((ix + 1) * ny + iy) + u1 ((ix - 1) * ny + iy) - 2 * u1 (ix * ny + iy)) +
       cy parms * (u1 (ix * ny + iy + 1) + u1 (ix * ny + iy - 1) - 2 * u1 (ix * ny + iy))"

text \<open>\<^verbatim>\<open>updateInternal(start, end, ny, u1, u2)\<close>: the loop nest over \<open>ix = start..end\<close>, \<open>iy = 2..ny-1\<close>.\<close>

definition updateInternal :: "int \<Rightarrow> int \<Rightarrow> int \<Rightarrow> buf \<Rightarrow> buf \<Rightarrow> buf" where
  "updateInternal start end0 ny u1 u2 =
     fold (\<lambda>ix. fold (\<lambda>iy u2. u2 (ix * (ny + 2) + iy := stencil (ny + 2) u1 ix iy)) [2..ny - 1])
       [start..end0] u2"

text \<open>
  The two loop shapes of \<^verbatim>\<open>updateExternal\<close>: along a row (\<^verbatim>\<open>for (iy=is; iy <= endny; iy++)\<close>) and
  along a column (\<^verbatim>\<open>for (ix=is; ix<endloop; ix++)\<close>).
\<close>

definition row_loop :: "int \<Rightarrow> buf \<Rightarrow> int \<Rightarrow> int \<Rightarrow> int \<Rightarrow> buf \<Rightarrow> buf" where
  "row_loop ny u1 ix is0 endny u2 =
     fold (\<lambda>iy u2. u2 (ix * ny + iy := stencil ny u1 ix iy)) [is0..endny] u2"

definition col_loop :: "int \<Rightarrow> buf \<Rightarrow> int \<Rightarrow> int \<Rightarrow> int \<Rightarrow> buf \<Rightarrow> buf" where
  "col_loop ny u1 iy is0 endloop u2 =
     fold (\<lambda>ix u2. u2 (ix * ny + iy := stencil ny u1 ix iy)) [is0..endloop - 1] u2"

text \<open>
  \<^verbatim>\<open>updateExternal(start, end, ny, right, left, up, down, u1, u2)\<close>, statement by statement:
  the first external row, the last external row, the first external column, the last
  external column. Both branches of the first \<open>endny\<close> are \<^verbatim>\<open>ny-3\<close> in the source.
\<close>

definition updateExternal ::
  "int \<Rightarrow> int \<Rightarrow> int \<Rightarrow> int \<Rightarrow> int \<Rightarrow> int \<Rightarrow> int \<Rightarrow> buf \<Rightarrow> buf \<Rightarrow> buf" where
  "updateExternal start end0 ny0 right left up down u1 u2 =
     (let ny = ny0 + 2;
          endx = end0 + 2;
          ix = (if up \<noteq> MPI_PROC_NULL then start else start + 1);
          iy = (if left \<noteq> MPI_PROC_NULL then 1 else 2);
          endny = (if right \<noteq> MPI_PROC_NULL then ny - 3 else ny - 3);
          u2 = row_loop ny u1 ix iy endny u2;
          ix = (if down \<noteq> MPI_PROC_NULL then endx - 2 else endx - 3);
          iy = (if left \<noteq> MPI_PROC_NULL then 1 else 2);
          endny = (if right \<noteq> MPI_PROC_NULL then ny - 2 else ny - 3);
          u2 = row_loop ny u1 ix iy endny u2;
          ix = (if up \<noteq> MPI_PROC_NULL then start else start + 1);
          iy = (if left \<noteq> MPI_PROC_NULL then 1 else 2);
          endloop = (if down \<noteq> MPI_PROC_NULL then endx - 2 else endx - 3);
          u2 = col_loop ny u1 iy ix endloop u2;
          ix = (if up \<noteq> MPI_PROC_NULL then start else start + 1);
          iy = (if right \<noteq> MPI_PROC_NULL then ny - 2 else ny - 3);
          endloop = (if down \<noteq> MPI_PROC_NULL then endx - 2 else endx - 3);
          u2 = col_loop ny u1 iy ix endloop u2
      in u2)"

subsection \<open>Validation and partitioning (master)\<close>

text \<open>
  \<^verbatim>\<open>isPrime(n)\<close>: its loop \<^verbatim>\<open>for (i=3; i*i<=n; i+=2)\<close> is the recursive function
  \<open>isPrime_loop\<close>. (In C the product \<^verbatim>\<open>i*i\<close> stays below \<open>2\<^sup>3\<^sup>1\<close> for every \<open>n\<close> up to
  \<open>46339\<^sup>2\<close>, far above any process count.)
\<close>

function isPrime_loop :: "int \<Rightarrow> int \<Rightarrow> bool" where
  "isPrime_loop n i =
     (if i * i \<le> n then (if n mod i = 0 then False else isPrime_loop n (i + 2)) else True)"
  by pat_completeness auto
termination
proof (relation "measure (\<lambda>(n, i). nat (n + 1 - i))")
  show "wf (measure (\<lambda>(n, i). nat (n + 1 - i)))" by simp
next
  fix n i :: int
  assume "i * i \<le> n"
  moreover have "i \<le> i * i"
  proof (cases "i \<le> 0")
    case True
    have "0 \<le> i * i" by simp
    with True show ?thesis by linarith
  next
    case False
    then have "i * 1 \<le> i * i" by (intro mult_left_mono) auto
    then show ?thesis by simp
  qed
  ultimately have "i \<le> n" by (rule order_trans [rotated])
  then show "((n, i + 2), (n, i)) \<in> measure (\<lambda>(n, i). nat (n + 1 - i))" by simp
qed

declare isPrime_loop.simps [simp del]

definition isPrime :: "int \<Rightarrow> bool" where
  "isPrime n =
     (if n = 1 then False
      else if n = 2 then True
      else if n mod 2 = 0 then False
      else isPrime_loop n 3)"

text \<open>
  \<^verbatim>\<open>x = sqrt(numworkers) + 1\<close> assigns a \<^verbatim>\<open>double\<close> to an \<^verbatim>\<open>int\<close>: the integer part of the
  square root, plus one. \<open>floor_sqrt\<close> computes that integer part by counting up; lemma
  \<open>floor_sqrt_real\<close> shows that it is \<open>\<lfloor>sqrt n\<rfloor>\<close>.
\<close>

function isqrt_from :: "int \<Rightarrow> int \<Rightarrow> int" where
  "isqrt_from n k = (if 0 \<le> k \<and> (k + 1) * (k + 1) \<le> n then isqrt_from n (k + 1) else k)"
  by pat_completeness auto
termination
proof (relation "measure (\<lambda>(n, k). nat (n - k))")
  show "wf (measure (\<lambda>(n, k). nat (n - k)))" by simp
next
  fix n k :: int
  assume a: "0 \<le> k \<and> (k + 1) * (k + 1) \<le> n"
  then have "(k + 1) * 1 \<le> (k + 1) * (k + 1)" by (intro mult_left_mono) auto
  then have b: "k + 1 \<le> (k + 1) * (k + 1)" by simp
  from a have c: "(k + 1) * (k + 1) \<le> n" by simp
  from b c have "k + 1 \<le> n" by (rule order_trans)
  then show "((n, k + 1), (n, k)) \<in> measure (\<lambda>(n, k). nat (n - k))" by simp
qed

declare isqrt_from.simps [simp del]

definition floor_sqrt :: "int \<Rightarrow> int" where
  "floor_sqrt n = isqrt_from n 0"

text \<open>
  The search \<^verbatim>\<open>for (x=sqrt(numworkers) + 1; x>=1; x--)\<close> with its \<^verbatim>\<open>break\<close>; \<open>None\<close> stands for
  the loop ending without an assignment to \<^verbatim>\<open>xdim\<close> and \<^verbatim>\<open>ydim\<close>.
\<close>

function find_dims :: "int \<Rightarrow> int \<Rightarrow> (int \<times> int) option" where
  "find_dims numworkers x =
     (if x \<ge> 1
      then (if numworkers mod x = 0 then Some (x, numworkers div x)
            else find_dims numworkers (x - 1))
      else None)"
  by pat_completeness auto
termination
  by (relation "measure (\<lambda>(n, x). nat x)") auto

declare find_dims.simps [simp del]

text \<open>The search followed by the swap \<^verbatim>\<open>if (NYPROB > NXPROB && ydim < xdim)\<close>.\<close>

definition partition_dims :: "int \<Rightarrow> int \<Rightarrow> int \<Rightarrow> (int \<times> int) option" where
  "partition_dims NX NY numworkers =
     (case find_dims numworkers (floor_sqrt numworkers + 1) of
        None \<Rightarrow> None
      | Some (xdim, ydim) \<Rightarrow>
          Some (if NY > NX \<and> ydim < xdim then (ydim, xdim) else (xdim, ydim)))"

text \<open>
  The neighbors the master computes for the workers \<open>i = 1, \<dots>, numworkers - 1\<close> (and sends
  to them), and the ones it assigns to itself.
\<close>

record neighbors =
  nb_left :: int
  nb_right :: int
  nb_up :: int
  nb_down :: int

definition worker_neighbors :: "int \<Rightarrow> int \<Rightarrow> int \<Rightarrow> neighbors" where
  "worker_neighbors xdim ydim i =
     \<lparr>nb_left = (if i mod ydim = 0 then MPI_PROC_NULL else i - 1),
      nb_right = (if i mod ydim = ydim - 1 then MPI_PROC_NULL else i + 1),
      nb_up = (if i < ydim then MPI_PROC_NULL else i - ydim),
      nb_down = (if i \<ge> (xdim - 1) * ydim then MPI_PROC_NULL else i + ydim)\<rparr>"

definition master_neighbors :: "int \<Rightarrow> int \<Rightarrow> neighbors" where
  "master_neighbors numworkers ydim =
     \<lparr>nb_left = MPI_PROC_NULL,
      nb_right = (if numworkers = 1 then MPI_PROC_NULL else 1),
      nb_up = MPI_PROC_NULL,
      nb_down = (if numworkers = 1 then MPI_PROC_NULL else ydim)\<rparr>"

definition task_neighbors :: "int \<Rightarrow> int \<Rightarrow> int \<Rightarrow> int \<Rightarrow> neighbors" where
  "task_neighbors numworkers xdim ydim taskid =
     (if taskid = MASTER then master_neighbors numworkers ydim
      else worker_neighbors xdim ydim taskid)"

subsection \<open>Start-up of \<^verbatim>\<open>main\<close>\<close>

text \<open>
  The value of \<^verbatim>\<open>strtol(argv[1], NULL, 10)\<close> is a \<^verbatim>\<open>long\<close> of 64 bits, and \<^verbatim>\<open>main\<close> stores
  it in the \<^verbatim>\<open>int\<close> \<^verbatim>\<open>thread_count\<close> of 32 bits before it tests it. The conversion of a value
  outside the range of \<^verbatim>\<open>int\<close> is implementation-defined; GCC and Clang keep the low 32 bits
  in two's complement, which is what \<open>int_of_long\<close> computes.
\<close>

definition int_of_long :: "int \<Rightarrow> int" where
  "int_of_long v = (v + 2147483648) mod 4294967296 - 2147483648"






subsection \<open>Vocabulary of the kernel theorems\<close>

text \<open>The cell \<open>(ix, iy)\<close> of a buffer whose rows are \<open>ny\<close> floats long.\<close>

definition cell :: "int \<Rightarrow> buf \<Rightarrow> int \<Rightarrow> int \<Rightarrow> real" where
  "cell ny u ix iy = u (ix * ny + iy)"

text \<open>The offsets of a set of cells.\<close>

definition offs :: "int \<Rightarrow> (int \<times> int) set \<Rightarrow> int set" where
  "offs ny A = (\<lambda>(ix, iy). ix * ny + iy) ` A"

text \<open>The stencil as a function of the offset of its centre.\<close>

definition stencil_off :: "int \<Rightarrow> buf \<Rightarrow> int \<Rightarrow> real" where
  "stencil_off ny u1 off =
     u1 off + cx parms * (u1 (off + ny) + u1 (off - ny) - 2 * u1 off) +
       cy parms * (u1 (off + 1) + u1 (off - 1) - 2 * u1 off)"

text \<open>
  The row and column bounds that \<^verbatim>\<open>updateExternal\<close> selects when called with \<open>start = 1\<close>,
  \<open>end = rows\<close>, \<open>ny = columns\<close>, and the cells its four loops then visit.
\<close>

definition top_row :: "int \<Rightarrow> int" where
  "top_row up = (if up \<noteq> MPI_PROC_NULL then 1 else 2)"

definition bottom_row :: "int \<Rightarrow> int \<Rightarrow> int" where
  "bottom_row rows down = (if down \<noteq> MPI_PROC_NULL then rows else rows - 1)"

definition left_col :: "int \<Rightarrow> int" where
  "left_col left = (if left \<noteq> MPI_PROC_NULL then 1 else 2)"

definition right_col :: "int \<Rightarrow> int \<Rightarrow> int" where
  "right_col columns right = (if right \<noteq> MPI_PROC_NULL then columns else columns - 1)"

definition ext_cells :: "int \<Rightarrow> int \<Rightarrow> int \<Rightarrow> int \<Rightarrow> int \<Rightarrow> int \<Rightarrow> (int \<times> int) set" where
  "ext_cells rows columns right left up down =
     {top_row up} \<times> {left_col left..columns - 1} \<union>
     {bottom_row rows down} \<times> {left_col left..right_col columns right} \<union>
     {top_row up..bottom_row rows down - 1} \<times> {left_col left} \<union>
     {top_row up..bottom_row rows down - 1} \<times> {right_col columns right}"

text \<open>
  The cells of the exterior ring of a block (first and last interior row, first and last
  interior column) that are due an update: those that do not lie on a side without a neighbor.
\<close>

definition ring_due :: "int \<Rightarrow> int \<Rightarrow> int \<Rightarrow> int \<Rightarrow> int \<Rightarrow> int \<Rightarrow> int \<Rightarrow> int \<Rightarrow> bool" where
  "ring_due rows columns right left up down ix iy \<longleftrightarrow>
     1 \<le> ix \<and> ix \<le> rows \<and> 1 \<le> iy \<and> iy \<le> columns \<and>
     (ix = 1 \<or> ix = rows \<or> iy = 1 \<or> iy = columns) \<and>
     (ix = 1 \<longrightarrow> up \<noteq> MPI_PROC_NULL) \<and> (ix = rows \<longrightarrow> down \<noteq> MPI_PROC_NULL) \<and>
     (iy = 1 \<longrightarrow> left \<noteq> MPI_PROC_NULL) \<and> (iy = columns \<longrightarrow> right \<noteq> MPI_PROC_NULL)"

text \<open>
  The perimeter of the rectangle of cells that remains once each side without a neighbor
  has been narrowed by one cell.
\<close>

definition ext_perimeter :: "int \<Rightarrow> int \<Rightarrow> int \<Rightarrow> int \<Rightarrow> int \<Rightarrow> int \<Rightarrow> int \<Rightarrow> int \<Rightarrow> bool" where
  "ext_perimeter rows columns right left up down ix iy \<longleftrightarrow>
     top_row up \<le> ix \<and> ix \<le> bottom_row rows down \<and>
     left_col left \<le> iy \<and> iy \<le> right_col columns right \<and>
     (ix = top_row up \<or> ix = bottom_row rows down \<or>
      iy = left_col left \<or> iy = right_col columns right)"

subsection \<open>Concrete buffers\<close>

definition zero_buf :: buf where
  "zero_buf = (\<lambda>off. 0)"

definition spike :: "int \<Rightarrow> buf" where
  "spike a = (\<lambda>off. if off = a then 1 else 0)"

definition ramp :: buf where
  "ramp = (\<lambda>off. real_of_int off)"

definition ramp_halo :: buf where
  "ramp_halo = ramp (0 := 100)"

subsection \<open>Distribution, halo exchange and the time loop\<close>

text \<open>
  The global grid \<^verbatim>\<open>u[NXPROB][NYPROB]\<close> is a store as well: \<^verbatim>\<open>u[i][j]\<close> lives at offset
  \<open>i * NY + j\<close>. \<^verbatim>\<open>inidat(nx, ny, u)\<close> fills it.
\<close>

definition inidat :: "int \<Rightarrow> int \<Rightarrow> buf \<Rightarrow> buf" where
  "inidat nx ny u =
     fold (\<lambda>ix. fold (\<lambda>iy u. u (ix * ny + iy :=
                                  real_of_int (ix * (nx - ix - 1) * iy * (ny - iy - 1))))
                     [0..ny - 1])
       [0..nx - 1] u"

text \<open>
  The displacement table of \<^verbatim>\<open>MPI_Scatterv\<close> and \<^verbatim>\<open>MPI_Gatherv\<close>, filled by the loop nest
  over \<open>i = 0..xdim-1\<close>, \<open>j = 0..ydim-1\<close> with its running counter \<open>disp\<close>. The table is
  \<^verbatim>\<open>malloc\<close>ed; entries the loop does not write are left as they are (here 0).
\<close>

definition displs_loop :: "int \<Rightarrow> int \<Rightarrow> int \<Rightarrow> int \<Rightarrow> int" where
  "displs_loop xdim ydim rows =
     fst (fold (\<lambda>i (displs, disp).
                  let (displs, disp) =
                        fold (\<lambda>j (displs, disp). (displs (i * ydim + j := disp), disp + 1))
                          [0..ydim - 1] (displs, disp)
                  in (displs, disp + (rows - 1) * ydim))
            [0..xdim - 1] (\<lambda>k. 0, 0))"

text \<open>
  The transfers are MPI's, described by the datatypes the program builds. On the side of the
  global grid, \<^verbatim>\<open>sendsubarrtype\<close> is the \<open>rows \<times> columns\<close> window at the start of an
  \<open>NX \<times> NY\<close> array, its extent resized to \<open>columns\<close> floats: displacement \<open>d\<close> places the window
  at float offset \<open>d * columns\<close>, and its cell \<open>(r, c)\<close> at \<open>d * columns + r * NY + c\<close>. On the
  side of a block, \<^verbatim>\<open>recvsubarrtype\<close> is the \<open>rows \<times> columns\<close> window at \<open>(1, 1)\<close> of the
  \<open>(rows+2) \<times> (columns+2)\<close> buffer. Data travels in row-major order of the windows.
\<close>

definition scatter_block :: "int \<Rightarrow> int \<Rightarrow> int \<Rightarrow> int \<Rightarrow> buf \<Rightarrow> buf \<Rightarrow> buf" where
  "scatter_block NY rows columns start u loc =
     fold (\<lambda>r. fold (\<lambda>c loc. loc ((r + 1) * (columns + 2) + (c + 1) := u (start + r * NY + c)))
                    [0..columns - 1])
       [0..rows - 1] loc"

definition gather_block :: "int \<Rightarrow> int \<Rightarrow> int \<Rightarrow> int \<Rightarrow> buf \<Rightarrow> buf \<Rightarrow> buf" where
  "gather_block NY rows columns start loc u =
     fold (\<lambda>r. fold (\<lambda>c u. u (start + r * NY + c := loc ((r + 1) * (columns + 2) + (c + 1))))
                    [0..columns - 1])
       [0..rows - 1] u"

text \<open>
  The state of the run: \<open>st iz k\<close> is the buffer \<^verbatim>\<open>local[iz]\<close> of task \<open>k\<close>. Both buffers are
  filled with zeros, then \<^verbatim>\<open>MPI_Scatterv\<close> delivers to \<^verbatim>\<open>local[0]\<close> of task \<open>k\<close> the window at
  displacement \<^verbatim>\<open>displs[k]\<close>.
\<close>

definition initial_locals ::
  "int \<Rightarrow> int \<Rightarrow> int \<Rightarrow> (int \<Rightarrow> int) \<Rightarrow> buf \<Rightarrow> int \<Rightarrow> int \<Rightarrow> buf" where
  "initial_locals NY rows columns displs u =
     (\<lambda>iz k. if iz = 0 then scatter_block NY rows columns (displs k * columns) u (\<lambda>off. 0)
              else (\<lambda>off. 0))"

text \<open>
  One halo transfer as the receiver sees it. A column (datatype \<^verbatim>\<open>column\<close>: \<open>rows\<close> floats with
  stride \<open>columns + 2\<close>, starting in row 1) and a row (\<open>columns\<close> contiguous floats, starting in
  column 1).
\<close>

definition recv_col :: "int \<Rightarrow> int \<Rightarrow> buf \<Rightarrow> int \<Rightarrow> buf \<Rightarrow> int \<Rightarrow> buf" where
  "recv_col rows ny src scol dst dcol =
     fold (\<lambda>i dst. dst ((1 + i) * ny + dcol := src ((1 + i) * ny + scol))) [0..rows - 1] dst"

definition recv_row :: "int \<Rightarrow> int \<Rightarrow> buf \<Rightarrow> int \<Rightarrow> buf \<Rightarrow> int \<Rightarrow> buf" where
  "recv_row columns ny src srow dst drow =
     fold (\<lambda>j dst. dst (drow * ny + 1 + j := src (srow * ny + 1 + j))) [0..columns - 1] dst"

text \<open>
  The four receives of a task, each matched with the send its neighbor posts in the opposite
  direction: from the left neighbor its column \<open>columns\<close> into column 0, from the right
  neighbor its column 1 into column \<open>columns + 1\<close>, from the neighbor below its row 1 into row
  \<open>rows + 1\<close>, from the neighbor above its row \<open>rows\<close> into row 0. A receive from
  \<^verbatim>\<open>MPI_PROC_NULL\<close> leaves the buffer as it is. Sends read interior cells and receives write
  halo cells, so the exchange of all tasks can be taken from the buffers \<open>bufs\<close> as they are
  when it starts. That the transfers complete is MPI's business and is assumed.
\<close>

definition halo_exchange :: "int \<Rightarrow> int \<Rightarrow> neighbors \<Rightarrow> (int \<Rightarrow> buf) \<Rightarrow> buf \<Rightarrow> buf" where
  "halo_exchange rows columns nb bufs b =
     (let ny = columns + 2;
          b = (if nb_left nb \<noteq> MPI_PROC_NULL
               then recv_col rows ny (bufs (nb_left nb)) columns b 0 else b);
          b = (if nb_right nb \<noteq> MPI_PROC_NULL
               then recv_col rows ny (bufs (nb_right nb)) 1 b (columns + 1) else b);
          b = (if nb_down nb \<noteq> MPI_PROC_NULL
               then recv_row columns ny (bufs (nb_down nb)) 1 b (rows + 1) else b);
          b = (if nb_up nb \<noteq> MPI_PROC_NULL
               then recv_row columns ny (bufs (nb_up nb)) rows b 0 else b)
      in b)"

text \<open>
  One iteration of the time loop, for all tasks: the interior pass from \<^verbatim>\<open>local[newiz]\<close> into
  \<^verbatim>\<open>local[1-newiz]\<close> (while the transfers are in flight), the completion of the receives into
  the halo of \<^verbatim>\<open>local[newiz]\<close>, and the exterior pass.
\<close>

definition time_step ::
  "int \<Rightarrow> int \<Rightarrow> (int \<Rightarrow> neighbors) \<Rightarrow> int \<Rightarrow> (int \<Rightarrow> int \<Rightarrow> buf) \<Rightarrow> int \<Rightarrow> int \<Rightarrow> buf" where
  "time_step rows columns nb it st =
     (let newiz = (it mod 2) * (- 1) + 1;
          st = st (1 - newiz := (\<lambda>k. updateInternal 2 (rows - 1) columns (st newiz k)
                                       (st (1 - newiz) k)));
          st = st (newiz := (\<lambda>k. halo_exchange rows columns (nb k) (st newiz) (st newiz k)));
          st = st (1 - newiz := (\<lambda>k. updateExternal 1 rows columns (nb_right (nb k))
                                       (nb_left (nb k)) (nb_up (nb k)) (nb_down (nb k))
                                       (st newiz k) (st (1 - newiz) k)))
      in st)"

text \<open>\<^verbatim>\<open>MPI_Gatherv\<close> onto the master's grid, block by block in rank order.\<close>

definition gather_field ::
  "int \<Rightarrow> int \<Rightarrow> int \<Rightarrow> (int \<Rightarrow> int) \<Rightarrow> int \<Rightarrow> (int \<Rightarrow> buf) \<Rightarrow> buf \<Rightarrow> buf" where
  "gather_field NY rows columns displs numworkers loc u =
     fold (\<lambda>k u. gather_block NY rows columns (displs k * columns) (loc k) u)
       [0..numworkers - 1] u"

text \<open>
  The whole run on an initial grid \<open>u\<close>, with the grid size and the number of steps (the macros
  \<^verbatim>\<open>NXPROB\<close>, \<^verbatim>\<open>NYPROB\<close>, \<^verbatim>\<open>STEPS\<close>) as parameters: validation, partition, scatter, the
  exchange before the loop, \<open>steps\<close> iterations, gather from \<^verbatim>\<open>local[STEPS % 2]\<close>.
  \<open>None\<close> is a run that the master aborts.
\<close>

definition heat2D :: "int \<Rightarrow> int \<Rightarrow> int \<Rightarrow> int \<Rightarrow> buf \<Rightarrow> buf option" where
  "heat2D NX NY steps numworkers u =
     (if isPrime numworkers \<or> (NX * NY) mod numworkers \<noteq> 0 then None
      else
        case partition_dims NX NY numworkers of
          None \<Rightarrow> None
        | Some (xdim, ydim) \<Rightarrow>
            let rows = NX div xdim;
                columns = NY div ydim;
                nb = task_neighbors numworkers xdim ydim;
                displs = displs_loop xdim ydim rows;
                st = initial_locals NY rows columns displs u;
                st = st (0 := (\<lambda>k. halo_exchange rows columns (nb k) (st 0) (st 0 k)));
                st = fold (time_step rows columns nb) [1..steps] st
            in Some (gather_field NY rows columns displs numworkers (st (steps mod 2)) u))"

definition ones_buf :: buf where
  "ones_buf = (\<lambda>off. 1)"


subsection \<open>Notions for stating properties of a run\<close>

text \<open>
  The cell \<open>(i, j)\<close> of the grid that the master holds after the gather; \<open>None\<close> for a run
  that was aborted.
\<close>

definition final_cell :: "int \<Rightarrow> buf option \<Rightarrow> int \<Rightarrow> int \<Rightarrow> real option" where
  "final_cell NY r i j = map_option (\<lambda>u'. u' (i * NY + j)) r"

text \<open>
  One iteration of the outer loop that fills the displacement table, as a function on the
  pair of the table and the running counter.
\<close>

definition displs_row :: "int \<Rightarrow> int \<Rightarrow> int \<Rightarrow> (int \<Rightarrow> int) \<times> int \<Rightarrow> (int \<Rightarrow> int) \<times> int" where
  "displs_row ydim rows i = (\<lambda>(displs, disp).
     let (displs, disp) =
           fold (\<lambda>j (displs, disp). (displs (i * ydim + j := disp), disp + 1))
             [0..ydim - 1] (displs, disp)
     in (displs, disp + (rows - 1) * ydim))"

text \<open>
  The cells of a block that lie on the edge of the global grid: the first row of a block with
  no neighbor above, the last row of a block with no neighbor below, and likewise for columns.
\<close>

definition frozen_cell :: "int \<Rightarrow> int \<Rightarrow> neighbors \<Rightarrow> int \<Rightarrow> int \<Rightarrow> bool" where
  "frozen_cell rows columns nb ix iy \<longleftrightarrow>
     1 \<le> ix \<and> ix \<le> rows \<and> 1 \<le> iy \<and> iy \<le> columns \<and>
     (nb_up nb = MPI_PROC_NULL \<and> ix = 1 \<or> nb_down nb = MPI_PROC_NULL \<and> ix = rows \<or>
      nb_left nb = MPI_PROC_NULL \<and> iy = 1 \<or> nb_right nb = MPI_PROC_NULL \<and> iy = columns)"

text \<open>
  Two states of the run agree on the edge cells of every task, in both buffers.
\<close>

definition frozen_same ::
  "int \<Rightarrow> int \<Rightarrow> int \<Rightarrow> (int \<Rightarrow> neighbors) \<Rightarrow> (int \<Rightarrow> int \<Rightarrow> buf) \<Rightarrow> (int \<Rightarrow> int \<Rightarrow> buf) \<Rightarrow> bool" where
  "frozen_same W rows columns nb st0 st \<longleftrightarrow>
     (\<forall>k ix iy. 0 \<le> k \<and> k < W \<and> frozen_cell rows columns (nb k) ix iy \<longrightarrow>
        cell (columns + 2) (st 0 k) ix iy = cell (columns + 2) (st0 0 k) ix iy \<and>
        cell (columns + 2) (st 1 k) ix iy = cell (columns + 2) (st0 1 k) ix iy)"

text \<open>
  Blocks of at least two rows and two columns, where a block of exactly two rows has a
  neighbor above or below and a block of exactly two columns has one to the left or right.
\<close>

definition nondegenerate :: "int \<Rightarrow> int \<Rightarrow> int \<Rightarrow> (int \<Rightarrow> neighbors) \<Rightarrow> bool" where
  "nondegenerate W rows columns nb \<longleftrightarrow>
     2 \<le> rows \<and> 2 \<le> columns \<and>
     (\<forall>k. 0 \<le> k \<and> k < W \<longrightarrow>
        (rows = 2 \<longrightarrow> nb_up (nb k) \<noteq> MPI_PROC_NULL \<or> nb_down (nb k) \<noteq> MPI_PROC_NULL) \<and>
        (columns = 2 \<longrightarrow> nb_left (nb k) \<noteq> MPI_PROC_NULL \<or> nb_right (nb k) \<noteq> MPI_PROC_NULL))"
section \<open>Lemmas about the kernel\<close>

subsection \<open>Loops that write one cell per iteration\<close>

lemma stencil_eq_off: "stencil ny u1 ix iy = stencil_off ny u1 (ix * ny + iy)"
  by (simp add: stencil_def stencil_off_def algebra_simps)

lemma fold_upd_other:
  assumes F: "\<And>j m. F j m = m (f j := g j)"
  shows "x \<notin> f ` set js \<Longrightarrow> fold F js m x = m x"
  by (induction js arbitrary: m) (auto simp: F)

lemma fold_upd_hit:
  assumes F: "\<And>j m. F j m = m (f j := g j)"
  shows "x \<in> f ` set js \<Longrightarrow> (\<And>j. j \<in> set js \<Longrightarrow> f j = x \<Longrightarrow> g j = v) \<Longrightarrow>
     fold F js m x = v"
proof (induction js arbitrary: m)
  case Nil
  then show ?case by simp
next
  case (Cons j js)
  show ?case
  proof (cases "x \<in> f ` set js")
    case True
    have "fold F js (F j m) x = v"
      by (rule Cons.IH [OF True]) (use Cons.prems(2) in auto)
    then show ?thesis by simp
  next
    case False
    with Cons.prems(1) have fj: "f j = x" by auto
    have "fold F js (F j m) x = F j m x"
      by (rule fold_upd_other [OF F False])
    also have "\<dots> = v" using fj Cons.prems(2) [of j] by (simp add: F)
    finally show ?thesis by simp
  qed
qed

lemma fold2_upd_other:
  assumes F: "\<And>i j m. F i j m = m (f i j := g i j)"
  shows "(\<And>i j. i \<in> set rs \<Longrightarrow> j \<in> set js \<Longrightarrow> f i j \<noteq> x) \<Longrightarrow>
     fold (\<lambda>i. fold (F i) js) rs m x = m x"
proof (induction rs arbitrary: m)
  case Nil
  then show ?case by simp
next
  case (Cons i rs)
  have "x \<notin> f i ` set js" using Cons.prems by auto
  then have inner: "fold (F i) js m x = m x"
    by (rule fold_upd_other [where g = "g i", OF F])
  have "fold (\<lambda>i. fold (F i) js) rs (fold (F i) js m) x = fold (F i) js m x"
    by (rule Cons.IH) (use Cons.prems in auto)
  then show ?case using inner by simp
qed

lemma fold2_upd_hit:
  assumes F: "\<And>i j m. F i j m = m (f i j := g i j)"
  shows "\<exists>i \<in> set rs. \<exists>j \<in> set js. f i j = x \<Longrightarrow>
    (\<And>i j. i \<in> set rs \<Longrightarrow> j \<in> set js \<Longrightarrow> f i j = x \<Longrightarrow> g i j = v) \<Longrightarrow>
    fold (\<lambda>i. fold (F i) js) rs m x = v"
proof (induction rs arbitrary: m)
  case Nil
  then show ?case by simp
next
  case (Cons i rs)
  show ?case
  proof (cases "\<exists>i' \<in> set rs. \<exists>j \<in> set js. f i' j = x")
    case True
    have "fold (\<lambda>i. fold (F i) js) rs (fold (F i) js m) x = v"
      by (rule Cons.IH [OF True]) (use Cons.prems(2) in auto)
    then show ?thesis by simp
  next
    case False
    then have no: "\<And>i' j. i' \<in> set rs \<Longrightarrow> j \<in> set js \<Longrightarrow> f i' j \<noteq> x" by blast
    with Cons.prems(1) have hit: "x \<in> f i ` set js" by auto
    have inner: "fold (F i) js m x = v"
      by (rule fold_upd_hit [where g = "g i", OF F hit]) (use Cons.prems(2) in auto)
    have "fold (\<lambda>i. fold (F i) js) rs (fold (F i) js m) x = fold (F i) js m x"
      by (rule fold2_upd_other [OF F]) (use no in auto)
    then show ?thesis using inner by simp
  qed
qed

lemma fold_upd_apply:
  assumes F: "\<And>j m. F j m = m (f j := g j)"
    and g: "\<And>j. j \<in> set js \<Longrightarrow> g j = h (f j)"
  shows "fold F js m x = (if x \<in> f ` set js then h x else m x)"
proof (cases "x \<in> f ` set js")
  case True
  have "fold F js m x = h x"
    by (rule fold_upd_hit [OF F True]) (use g in auto)
  then show ?thesis using True by simp
next
  case False
  then show ?thesis using fold_upd_other [OF F False] by simp
qed

lemma fold2_upd_apply:
  assumes F: "\<And>i j m. F i j m = m (f i j := g i j)"
    and g: "\<And>i j. i \<in> set rs \<Longrightarrow> j \<in> set js \<Longrightarrow> g i j = h (f i j)"
  shows "fold (\<lambda>i. fold (F i) js) rs m x =
           (if x \<in> (\<lambda>(i, j). f i j) ` (set rs \<times> set js) then h x else m x)"
proof (cases "x \<in> (\<lambda>(i, j). f i j) ` (set rs \<times> set js)")
  case True
  then have ex: "\<exists>i \<in> set rs. \<exists>j \<in> set js. f i j = x" by auto
  have "fold (\<lambda>i. fold (F i) js) rs m x = h x"
    by (rule fold2_upd_hit [OF F ex]) (use g in auto)
  then show ?thesis using True by simp
next
  case False
  then have no: "\<And>i j. i \<in> set rs \<Longrightarrow> j \<in> set js \<Longrightarrow> f i j \<noteq> x" by auto
  show ?thesis using fold2_upd_other [OF F no] False by simp
qed

lemma cell_unique:
  fixes ny :: int
  assumes "0 \<le> iy" "iy < ny" "0 \<le> iy'" "iy' < ny" "ix * ny + iy = ix' * ny + iy'"
  shows "ix = ix' \<and> iy = iy'"
proof -
  have ny: "ny \<noteq> 0" using assms by auto
  have a: "(iy + ix * ny) div ny = ix + iy div ny" using ny by (rule div_mult_self1)
  have b: "(iy' + ix' * ny) div ny = ix' + iy' div ny" using ny by (rule div_mult_self1)
  have "iy div ny = 0" "iy' div ny = 0" using assms by simp_all
  with a b assms(5) have "ix = ix'" by (simp add: add.commute)
  then show ?thesis using assms(5) by simp
qed

lemma offs_mem:
  assumes "0 \<le> iy" "iy < ny" "\<And>a b. (a, b) \<in> A \<Longrightarrow> 0 \<le> b \<and> b < ny"
  shows "ix * ny + iy \<in> offs ny A \<longleftrightarrow> (ix, iy) \<in> A"
proof
  assume "ix * ny + iy \<in> offs ny A"
  then obtain a b where ab: "(a, b) \<in> A" "ix * ny + iy = a * ny + b"
    by (auto simp: offs_def)
  with assms(3) have "0 \<le> b \<and> b < ny" by blast
  with cell_unique [OF assms(1,2) _ _ ab(2)] have "ix = a \<and> iy = b" by blast
  then show "(ix, iy) \<in> A" using ab by simp
next
  assume "(ix, iy) \<in> A"
  then show "ix * ny + iy \<in> offs ny A" by (force simp: offs_def)
qed

lemma offs_Un: "offs ny (A \<union> B) = offs ny A \<union> offs ny B"
  by (auto simp: offs_def)

lemma updateInternal_apply:
  "updateInternal s e ny u1 u2 x =
     (if x \<in> offs (ny + 2) ({s..e} \<times> {2..ny - 1}) then stencil_off (ny + 2) u1 x else u2 x)"
proof -
  have "fold (\<lambda>ix. fold (\<lambda>iy u2. u2 (ix * (ny + 2) + iy := stencil (ny + 2) u1 ix iy)) [2..ny - 1])
          [s..e] u2 x =
        (if x \<in> (\<lambda>(ix, iy). ix * (ny + 2) + iy) ` (set [s..e] \<times> set [2..ny - 1])
         then stencil_off (ny + 2) u1 x else u2 x)"
  proof (rule fold2_upd_apply [where g = "\<lambda>ix iy. stencil (ny + 2) u1 ix iy"])
    show "\<And>i j m. m (i * (ny + 2) + j := stencil (ny + 2) u1 i j) =
            m (i * (ny + 2) + j := stencil (ny + 2) u1 i j)" by (rule refl)
    show "\<And>i j. stencil (ny + 2) u1 i j = stencil_off (ny + 2) u1 (i * (ny + 2) + j)"
      by (rule stencil_eq_off)
  qed
  then show ?thesis unfolding updateInternal_def offs_def by simp
qed

lemma row_loop_apply:
  "row_loop ny u1 ix s e u2 x =
     (if x \<in> offs ny ({ix} \<times> {s..e}) then stencil_off ny u1 x else u2 x)"
proof -
  have a: "fold (\<lambda>iy u2. u2 (ix * ny + iy := stencil ny u1 ix iy)) [s..e] u2 x =
          (if x \<in> (\<lambda>iy. ix * ny + iy) ` set [s..e] then stencil_off ny u1 x else u2 x)"
  proof (rule fold_upd_apply [where g = "\<lambda>iy. stencil ny u1 ix iy"])
    show "\<And>j m. m (ix * ny + j := stencil ny u1 ix j) = m (ix * ny + j := stencil ny u1 ix j)"
      by (rule refl)
    show "\<And>j. stencil ny u1 ix j = stencil_off ny u1 (ix * ny + j)"
      by (rule stencil_eq_off)
  qed
  have b: "(\<lambda>iy. ix * ny + iy) ` set [s..e] = offs ny ({ix} \<times> {s..e})"
    unfolding offs_def image_def by auto
  show ?thesis unfolding row_loop_def a b by (rule refl)
qed

lemma col_loop_apply:
  "col_loop ny u1 iy s e u2 x =
     (if x \<in> offs ny ({s..e - 1} \<times> {iy}) then stencil_off ny u1 x else u2 x)"
proof -
  have a: "fold (\<lambda>ix u2. u2 (ix * ny + iy := stencil ny u1 ix iy)) [s..e - 1] u2 x =
          (if x \<in> (\<lambda>ix. ix * ny + iy) ` set [s..e - 1] then stencil_off ny u1 x else u2 x)"
  proof (rule fold_upd_apply [where g = "\<lambda>ix. stencil ny u1 ix iy"])
    show "\<And>j m. m (j * ny + iy := stencil ny u1 j iy) = m (j * ny + iy := stencil ny u1 j iy)"
      by (rule refl)
    show "\<And>j. stencil ny u1 j iy = stencil_off ny u1 (j * ny + iy)"
      by (rule stencil_eq_off)
  qed
  have b: "(\<lambda>ix. ix * ny + iy) ` set [s..e - 1] = offs ny ({s..e - 1} \<times> {iy})"
    unfolding offs_def image_def by auto
  show ?thesis unfolding col_loop_def a b by (rule refl)
qed


lemma updateExternal_apply:
  "updateExternal 1 rows columns right left up down u1 u2 x =
     (if x \<in> offs (columns + 2) (ext_cells rows columns right left up down)
      then stencil_off (columns + 2) u1 x else u2 x)"
proof -
  have T: "(if up \<noteq> MPI_PROC_NULL then 1 else 1 + 1) = top_row up"
    by (simp add: top_row_def)
  have B: "(if down \<noteq> MPI_PROC_NULL then rows + 2 - 2 else rows + 2 - 3) = bottom_row rows down"
    by (simp add: bottom_row_def)
  have L: "(if left \<noteq> MPI_PROC_NULL then 1 else 2) = left_col left"
    by (simp add: left_col_def)
  have R: "(if right \<noteq> MPI_PROC_NULL then columns + 2 - 2 else columns + 2 - 3) =
             right_col columns right"
    by (simp add: right_col_def)
  have R0: "(if right \<noteq> MPI_PROC_NULL then columns + 2 - 3 else columns + 2 - 3) = columns - 1"
    by simp
  show ?thesis
    unfolding updateExternal_def Let_def T B L R R0 row_loop_apply col_loop_apply
      ext_cells_def offs_Un
    by auto
qed

lemma bounds_rows:
  "1 \<le> top_row up" "top_row up \<le> 2"
  "rows - 1 \<le> bottom_row rows down" "bottom_row rows down \<le> rows"
  by (simp_all add: top_row_def bottom_row_def)

lemma bounds_cols:
  "1 \<le> left_col left" "left_col left \<le> 2"
  "columns - 1 \<le> right_col columns right" "right_col columns right \<le> columns"
  by (simp_all add: left_col_def right_col_def)

lemma ext_cells_cols:
  assumes "1 \<le> columns" "(a, b) \<in> ext_cells rows columns right left up down"
  shows "0 \<le> b \<and> b < columns + 2"
  using assms bounds_cols(1,2) [of left] bounds_cols(3,4) [of columns right]
  unfolding ext_cells_def by auto

lemma updateExternal_cell:
  assumes "1 \<le> columns" "0 \<le> iy" "iy \<le> columns + 1"
  shows "cell (columns + 2) (updateExternal 1 rows columns right left up down u1 u2) ix iy =
     (if (ix, iy) \<in> ext_cells rows columns right left up down
      then stencil (columns + 2) u1 ix iy else cell (columns + 2) u2 ix iy)"
proof -
  have "ix * (columns + 2) + iy \<in> offs (columns + 2) (ext_cells rows columns right left up down)
          \<longleftrightarrow> (ix, iy) \<in> ext_cells rows columns right left up down"
    by (rule offs_mem) (use assms ext_cells_cols in auto)
  then show ?thesis
    unfolding cell_def updateExternal_apply by (simp add: stencil_eq_off)
qed

lemma updateInternal_cell:
  assumes "0 \<le> columns" "0 \<le> iy" "iy \<le> columns + 1"
  shows "cell (columns + 2) (updateInternal s e columns u1 u2) ix iy =
     (if s \<le> ix \<and> ix \<le> e \<and> 2 \<le> iy \<and> iy \<le> columns - 1
      then stencil (columns + 2) u1 ix iy else cell (columns + 2) u2 ix iy)"
proof -
  have "ix * (columns + 2) + iy \<in> offs (columns + 2) ({s..e} \<times> {2..columns - 1})
          \<longleftrightarrow> (ix, iy) \<in> {s..e} \<times> {2..columns - 1}"
    by (rule offs_mem) (use assms in auto)
  then show ?thesis
    unfolding cell_def updateInternal_apply by (simp add: stencil_eq_off)
qed

lemma stencil_cell:
  "stencil ny u1 ix iy =
     cell ny u1 ix iy +
       1 / 10 * (cell ny u1 (ix + 1) iy + cell ny u1 (ix - 1) iy - 2 * cell ny u1 ix iy) +
       1 / 10 * (cell ny u1 ix (iy + 1) + cell ny u1 ix (iy - 1) - 2 * cell ny u1 ix iy)"
  by (simp add: stencil_def cell_def parms_def algebra_simps)

lemma stencil_agree:
  assumes "\<forall>ix iy. 1 \<le> ix \<and> ix \<le> rows \<and> 1 \<le> iy \<and> iy \<le> columns \<longrightarrow>
             cell ny u1' ix iy = cell ny u1 ix iy"
    and "2 \<le> ix" "ix \<le> rows - 1" "2 \<le> iy" "iy \<le> columns - 1"
  shows "stencil ny u1' ix iy = stencil ny u1 ix iy"
  using assms by (simp add: stencil_cell)

lemma interior_written_agree:
  assumes agree: "\<forall>ix iy. 1 \<le> ix \<and> ix \<le> rows \<and> 1 \<le> iy \<and> iy \<le> columns \<longrightarrow>
             cell (columns + 2) u1' ix iy = cell (columns + 2) u1 ix iy"
    and x: "x \<in> offs (columns + 2) ({2..rows - 1} \<times> {2..columns - 1})"
  shows "updateInternal 2 (rows - 1) columns u1' u2' x = updateInternal 2 (rows - 1) columns u1 u2 x"
proof -
  from x obtain ix iy where c: "2 \<le> ix" "ix \<le> rows - 1" "2 \<le> iy" "iy \<le> columns - 1"
    and xe: "x = ix * (columns + 2) + iy"
    by (auto simp: offs_def)
  have "stencil_off (columns + 2) u1' x = stencil_off (columns + 2) u1 x"
    unfolding xe stencil_eq_off [symmetric] by (rule stencil_agree [OF agree c])
  then show ?thesis using x by (simp add: updateInternal_apply)
qed

lemma interior_reads_only:
  assumes agree: "\<forall>ix iy. 1 \<le> ix \<and> ix \<le> rows \<and> 1 \<le> iy \<and> iy \<le> columns \<longrightarrow>
             cell (columns + 2) u1' ix iy = cell (columns + 2) u1 ix iy"
  shows "updateInternal 2 (rows - 1) columns u1' u2 = updateInternal 2 (rows - 1) columns u1 u2"
proof
  fix x
  show "updateInternal 2 (rows - 1) columns u1' u2 x = updateInternal 2 (rows - 1) columns u1 u2 x"
  proof (cases "x \<in> offs (columns + 2) ({2..rows - 1} \<times> {2..columns - 1})")
    case True
    then show ?thesis by (rule interior_written_agree [OF agree])
  next
    case False
    then show ?thesis by (simp add: updateInternal_apply)
  qed
qed

lemma perimeter_generic:
  fixes T B L R C :: int
  assumes "T \<le> B" "L \<le> R" "C - 1 \<le> R" "R \<le> C"
  shows "(ix, iy) \<in> {T} \<times> {L..C - 1} \<union> {B} \<times> {L..R} \<union> {T..B - 1} \<times> {L} \<union> {T..B - 1} \<times> {R}
     \<longleftrightarrow> T \<le> ix \<and> ix \<le> B \<and> L \<le> iy \<and> iy \<le> R \<and> (ix = T \<or> ix = B \<or> iy = L \<or> iy = R)"
  using assms by auto

lemma nondegenerate_rows:
  assumes "2 \<le> rows" "rows = 2 \<longrightarrow> up \<noteq> MPI_PROC_NULL \<or> down \<noteq> MPI_PROC_NULL"
  shows "top_row up \<le> bottom_row rows down"
  using assms by (auto simp: top_row_def bottom_row_def)

lemma nondegenerate_cols:
  assumes "2 \<le> columns" "columns = 2 \<longrightarrow> left \<noteq> MPI_PROC_NULL \<or> right \<noteq> MPI_PROC_NULL"
  shows "left_col left \<le> right_col columns right"
  using assms by (auto simp: left_col_def right_col_def)

lemma ext_cells_perimeter:
  assumes "2 \<le> rows" "2 \<le> columns"
    and "rows = 2 \<longrightarrow> up \<noteq> MPI_PROC_NULL \<or> down \<noteq> MPI_PROC_NULL"
    and "columns = 2 \<longrightarrow> left \<noteq> MPI_PROC_NULL \<or> right \<noteq> MPI_PROC_NULL"
  shows "(ix, iy) \<in> ext_cells rows columns right left up down \<longleftrightarrow>
           ext_perimeter rows columns right left up down ix iy"
  unfolding ext_cells_def ext_perimeter_def
  by (rule perimeter_generic [OF nondegenerate_rows [OF assms(1,3)]
        nondegenerate_cols [OF assms(2,4)] bounds_cols(3,4)])

lemma ring_due_ext_cells:
  assumes "2 \<le> rows" "2 \<le> columns" "ring_due rows columns right left up down ix iy"
  shows "(ix, iy) \<in> ext_cells rows columns right left up down"
proof -
  let ?T = "top_row up" and ?B = "bottom_row rows down"
  let ?L = "left_col left" and ?R = "right_col columns right"
  from assms(3) have r: "1 \<le> ix" "ix \<le> rows" "1 \<le> iy" "iy \<le> columns"
    "ix = 1 \<or> ix = rows \<or> iy = 1 \<or> iy = columns"
    by (simp_all add: ring_due_def)
  from assms(3) have T: "?T \<le> ix" "ix = 1 \<Longrightarrow> ?T = 1"
    using r(1) by (auto simp: ring_due_def top_row_def)
  from assms(3) have B: "ix \<le> ?B" "ix = rows \<Longrightarrow> ?B = rows"
    using r(2) by (auto simp: ring_due_def bottom_row_def)
  from assms(3) have L: "?L \<le> iy" "iy = 1 \<Longrightarrow> ?L = 1"
    using r(3) by (auto simp: ring_due_def left_col_def)
  from assms(3) have R: "iy \<le> ?R" "iy = columns \<Longrightarrow> ?R = columns"
    using r(4) by (auto simp: ring_due_def right_col_def)
  have "?T \<le> ix \<and> ix \<le> ?B \<and> ?L \<le> iy \<and> iy \<le> ?R \<and>
          (ix = ?T \<or> ix = ?B \<or> iy = ?L \<or> iy = ?R)"
    using T B L R r(5) by auto
  moreover have "?T \<le> ?B" "?L \<le> ?R" using T B L R by linarith+
  ultimately show ?thesis
    unfolding ext_cells_def
    using perimeter_generic [OF \<open>?T \<le> ?B\<close> \<open>?L \<le> ?R\<close> bounds_cols(3,4), of ix iy]
    by blast
qed

lemma ext_cells_inside:
  assumes "2 \<le> rows" "2 \<le> columns" "(a, b) \<in> ext_cells rows columns right left up down"
  shows "1 \<le> a \<and> a \<le> rows \<and> 1 \<le> b \<and> b \<le> columns"
  using assms bounds_rows(1,2) [of up] bounds_rows(3,4) [of rows down]
    bounds_cols(1,2) [of left] bounds_cols(3,4) [of columns right]
  unfolding ext_cells_def by auto

section \<open>Lemmas about validation and partitioning\<close>

lemma isqrt_from_spec:
  "0 \<le> k \<Longrightarrow> k * k \<le> n \<Longrightarrow>
     k \<le> isqrt_from n k \<and> isqrt_from n k * isqrt_from n k \<le> n \<and>
     n < (isqrt_from n k + 1) * (isqrt_from n k + 1)"
proof (induction n k rule: isqrt_from.induct)
  case (1 n k)
  show ?case
  proof (cases "0 \<le> k \<and> (k + 1) * (k + 1) \<le> n")
    case True
    then have "k + 1 \<le> isqrt_from n (k + 1) \<and>
        isqrt_from n (k + 1) * isqrt_from n (k + 1) \<le> n \<and>
        n < (isqrt_from n (k + 1) + 1) * (isqrt_from n (k + 1) + 1)"
      using "1.IH" by simp
    moreover have "isqrt_from n k = isqrt_from n (k + 1)"
      using True isqrt_from.simps [of n k] by simp
    ultimately show ?thesis by simp
  next
    case False
    then have "isqrt_from n k = k" using isqrt_from.simps [of n k] by auto
    then show ?thesis using False "1.prems" by simp
  qed
qed

lemma floor_sqrt_spec:
  assumes "0 \<le> n"
  shows "0 \<le> floor_sqrt n" "floor_sqrt n * floor_sqrt n \<le> n"
    "n < (floor_sqrt n + 1) * (floor_sqrt n + 1)"
  using isqrt_from_spec [of 0 n] assms by (simp_all add: floor_sqrt_def)

lemma floor_sqrt_real:
  assumes "0 \<le> n"
  shows "floor_sqrt n = \<lfloor>sqrt (real_of_int n)\<rfloor>"
proof -
  let ?r = "floor_sqrt n"
  have "real_of_int (?r * ?r) \<le> real_of_int n"
    using floor_sqrt_spec(2) [OF assms] by (simp only: of_int_le_iff)
  then have a: "real_of_int ?r * real_of_int ?r \<le> real_of_int n" by simp
  have "real_of_int n < real_of_int ((?r + 1) * (?r + 1))"
    using floor_sqrt_spec(3) [OF assms] by (simp only: of_int_less_iff)
  then have b: "real_of_int n < (real_of_int ?r + 1) * (real_of_int ?r + 1)" by simp
  have r0: "0 \<le> real_of_int ?r" using floor_sqrt_spec(1) [OF assms] by simp
  have "real_of_int ?r \<le> sqrt (real_of_int n)"
    using a by (intro real_le_rsqrt) (simp add: power2_eq_square)
  moreover have "sqrt (real_of_int n) < real_of_int ?r + 1"
    using b r0 by (intro real_less_lsqrt) (simp_all add: power2_eq_square assms)
  ultimately show ?thesis by (simp add: floor_unique)
qed

lemma floor_sqrt_upper:
  assumes "0 \<le> n" "0 \<le> d" "d * d \<le> n"
  shows "d \<le> floor_sqrt n"
proof (rule ccontr)
  assume "\<not> d \<le> floor_sqrt n"
  then have "floor_sqrt n + 1 \<le> d" by simp
  moreover have "0 \<le> floor_sqrt n + 1" using floor_sqrt_spec(1) [OF assms(1)] by simp
  ultimately have "(floor_sqrt n + 1) * (floor_sqrt n + 1) \<le> d * d"
    by (intro mult_mono) auto
  with floor_sqrt_spec(3) [OF assms(1)] assms(3) show False by linarith
qed

lemma find_dims_spec:
  "1 \<le> W \<Longrightarrow> 1 \<le> x0 \<Longrightarrow>
     \<exists>x. find_dims W x0 = Some (x, W div x) \<and> 1 \<le> x \<and> x \<le> x0 \<and> W mod x = 0 \<and>
         (\<forall>y. x < y \<and> y \<le> x0 \<longrightarrow> W mod y \<noteq> 0)"
proof (induction W x0 rule: find_dims.induct)
  case (1 W x0)
  show ?case
  proof (cases "W mod x0 = 0")
    case True
    then have "find_dims W x0 = Some (x0, W div x0)"
      using "1.prems" find_dims.simps [of W x0] by simp
    then show ?thesis using True "1.prems" by auto
  next
    case False
    have "x0 \<noteq> 1" using False by auto
    then have x1: "1 \<le> x0 - 1" using "1.prems" by simp
    have "\<exists>x. find_dims W (x0 - 1) = Some (x, W div x) \<and> 1 \<le> x \<and> x \<le> x0 - 1 \<and>
            W mod x = 0 \<and> (\<forall>y. x < y \<and> y \<le> x0 - 1 \<longrightarrow> W mod y \<noteq> 0)"
      by (rule "1.IH" [OF "1.prems"(2) False "1.prems"(1) x1])
    then obtain x where x: "find_dims W (x0 - 1) = Some (x, W div x)" "1 \<le> x" "x \<le> x0 - 1"
      "W mod x = 0" "\<forall>y. x < y \<and> y \<le> x0 - 1 \<longrightarrow> W mod y \<noteq> 0"
      by (elim exE conjE)
    have "find_dims W x0 = find_dims W (x0 - 1)"
      using False "1.prems" find_dims.simps [of W x0] by simp
    moreover have "\<forall>y. x < y \<and> y \<le> x0 \<longrightarrow> W mod y \<noteq> 0"
    proof (intro allI impI)
      fix y assume "x < y \<and> y \<le> x0"
      then show "W mod y \<noteq> 0" using x(5) False by (cases "y = x0") auto
    qed
    ultimately show ?thesis using x by auto
  qed
qed

lemma isPrime_loop_False:
  "\<not> isPrime_loop n i \<Longrightarrow> \<exists>d. i \<le> d \<and> d * d \<le> n \<and> n mod d = 0"
proof (induction n i rule: isPrime_loop.induct)
  case (1 n i)
  show ?case
  proof (cases "i * i \<le> n")
    case True
    note sq = True
    show ?thesis
    proof (cases "n mod i = 0")
      case True
      have "i \<le> i \<and> i * i \<le> n \<and> n mod i = 0" using sq True by simp
      then show ?thesis by (rule exI)
    next
      case False
      have "isPrime_loop n i = isPrime_loop n (i + 2)"
        using sq False isPrime_loop.simps [of n i] by simp
      with "1.prems" have "\<not> isPrime_loop n (i + 2)" by simp
      then have "\<exists>d. i + 2 \<le> d \<and> d * d \<le> n \<and> n mod d = 0"
        by (rule "1.IH" [OF sq False])
      then obtain d where d: "i + 2 \<le> d" "d * d \<le> n" "n mod d = 0"
        by (elim exE conjE)
      have "i \<le> d \<and> d * d \<le> n \<and> n mod d = 0" using d by simp
      then show ?thesis by (rule exI)
    qed
  next
    case False
    then have "isPrime_loop n i" using isPrime_loop.simps [of n i] by simp
    with "1.prems" show ?thesis by simp
  qed
qed

lemma not_isPrime_divisor:
  assumes "1 \<le> n" "n \<noteq> 1" "\<not> isPrime n"
  shows "\<exists>d. 2 \<le> d \<and> d * d \<le> n \<and> n mod d = 0"
proof (cases "n mod 2 = 0")
  case True
  have "n \<noteq> 2" using assms(3) by (auto simp: isPrime_def)
  with True assms have "4 \<le> n" by presburger
  with True have "(2::int) \<le> 2 \<and> 2 * 2 \<le> n \<and> n mod 2 = 0" by simp
  then show ?thesis by (rule exI)
next
  case False
  then have "n \<noteq> 2" by auto
  with assms False have "\<not> isPrime_loop n 3" by (simp add: isPrime_def)
  from isPrime_loop_False [OF this] obtain d where d: "3 \<le> d" "d * d \<le> n" "n mod d = 0"
    by (elim exE conjE)
  have "2 \<le> d \<and> d * d \<le> n \<and> n mod d = 0" using d by simp
  then show ?thesis by (rule exI)
qed

lemma partition_dims_spec:
  assumes "1 \<le> W"
  shows "\<exists>x. find_dims W (floor_sqrt W + 1) = Some (x, W div x) \<and> 1 \<le> x \<and>
           x \<le> floor_sqrt W + 1 \<and> W mod x = 0 \<and>
           (\<forall>y. x < y \<and> y \<le> floor_sqrt W + 1 \<longrightarrow> W mod y \<noteq> 0) \<and>
           partition_dims NX NY W =
             Some (if NY > NX \<and> W div x < x then (W div x, x) else (x, W div x))"
proof -
  have s: "1 \<le> floor_sqrt W + 1" using floor_sqrt_spec(1) [of W] assms by simp
  from find_dims_spec [OF assms s]
  obtain x where x: "find_dims W (floor_sqrt W + 1) = Some (x, W div x)" "1 \<le> x"
    "x \<le> floor_sqrt W + 1" "W mod x = 0"
    "\<forall>y. x < y \<and> y \<le> floor_sqrt W + 1 \<longrightarrow> W mod y \<noteq> 0"
    by (elim exE conjE)
  have p: "partition_dims NX NY W =
          Some (if NY > NX \<and> W div x < x then (W div x, x) else (x, W div x))"
    by (simp add: partition_dims_def x(1))
  have "find_dims W (floor_sqrt W + 1) = Some (x, W div x) \<and> 1 \<le> x \<and>
           x \<le> floor_sqrt W + 1 \<and> W mod x = 0 \<and>
           (\<forall>y. x < y \<and> y \<le> floor_sqrt W + 1 \<longrightarrow> W mod y \<noteq> 0) \<and>
           partition_dims NX NY W =
             Some (if NY > NX \<and> W div x < x then (W div x, x) else (x, W div x))"
    using x p by simp
  then show ?thesis by (rule exI)
qed

lemma divisor_quotient:
  fixes W x :: int
  assumes "1 \<le> W" "1 \<le> x" "W mod x = 0"
  shows "x * (W div x) = W" "1 \<le> W div x"
proof -
  show eq: "x * (W div x) = W" using assms(3) by (simp add: mod_eq_0_iff_dvd)
  have "0 < x * (W div x)" using eq assms(1) by simp
  then have "0 < W div x" using assms(2) by (simp add: zero_less_mult_iff)
  then show "1 \<le> W div x" by simp
qed

lemma partition_dims_facts:
  assumes "1 \<le> W" "partition_dims NX NY W = Some (xdim, ydim)"
  shows "xdim * ydim = W" "1 \<le> xdim" "1 \<le> ydim"
proof -
  from partition_dims_spec [OF assms(1), of NX NY]
  obtain x where x: "1 \<le> x" "W mod x = 0"
    "partition_dims NX NY W =
       Some (if NY > NX \<and> W div x < x then (W div x, x) else (x, W div x))"
    by (elim exE conjE)
  note q = divisor_quotient [OF assms(1) x(1,2)]
  from x(3) assms(2) have d: "(xdim, ydim) = (W div x, x) \<or> (xdim, ydim) = (x, W div x)"
    by (simp split: if_splits)
  from d q x(1) show "xdim * ydim = W" by (auto simp: mult.commute)
  from d q x(1) show "1 \<le> xdim" by auto
  from d q x(1) show "1 \<le> ydim" by auto
qed

lemma partition_dims_ge2:
  assumes "1 \<le> W" "W \<noteq> 1" "\<not> isPrime W" "partition_dims NX NY W = Some (xdim, ydim)"
  shows "2 \<le> xdim" "2 \<le> ydim"
proof -
  let ?s = "floor_sqrt W"
  have W0: "0 \<le> W" using assms(1) by simp
  from partition_dims_spec [OF assms(1), of NX NY]
  obtain x where x: "1 \<le> x" "x \<le> ?s + 1" "W mod x = 0"
    "\<forall>y. x < y \<and> y \<le> ?s + 1 \<longrightarrow> W mod y \<noteq> 0"
    "partition_dims NX NY W =
       Some (if NY > NX \<and> W div x < x then (W div x, x) else (x, W div x))"
    by (elim exE conjE)
  from not_isPrime_divisor [OF assms(1,2,3)]
  obtain d where d: "2 \<le> d" "d * d \<le> W" "W mod d = 0" by (elim exE conjE)
  have ds: "d \<le> ?s" using floor_sqrt_upper [OF W0 _ d(2)] d(1) by simp
  have dx: "d \<le> x"
  proof (rule ccontr)
    assume "\<not> d \<le> x"
    then have "x < d \<and> d \<le> ?s + 1" using ds by simp
    moreover from x(4) have "x < d \<and> d \<le> ?s + 1 \<longrightarrow> W mod d \<noteq> 0" by (rule spec)
    ultimately have "W mod d \<noteq> 0" by (rule rev_mp)
    with d(3) show False by simp
  qed
  have x2: "2 \<le> x" using dx d(1) by simp
  have s2: "2 \<le> ?s" using ds d(1) by simp
  then have "2 * ?s \<le> ?s * ?s" by (intro mult_right_mono) auto
  then have "2 * ?s \<le> W" using floor_sqrt_spec(2) [OF W0] by (rule order_trans)
  with s2 x(2) have xW: "x < W" by linarith
  note q = divisor_quotient [OF assms(1) x(1,3)]
  have q2: "2 \<le> W div x"
  proof (rule ccontr)
    assume "\<not> 2 \<le> W div x"
    with q(2) have "W div x = 1" by simp
    with q(1) have "x = W" by simp
    with xW show False by simp
  qed
  from x(5) assms(4) have c: "(xdim, ydim) = (W div x, x) \<or> (xdim, ydim) = (x, W div x)"
    by (simp split: if_splits)
  from c x2 q2 show "2 \<le> xdim" by auto
  from c x2 q2 show "2 \<le> ydim" by auto
qed

lemma partition_dims_one:
  assumes "partition_dims NX NY 1 = Some (xdim, ydim)"
  shows "xdim = 1" "ydim = 1"
proof -
  have f: "xdim * ydim = 1" "1 \<le> xdim" "1 \<le> ydim"
    using partition_dims_facts [OF _ assms] by simp_all
  have "xdim * 1 \<le> xdim * ydim" using f(2,3) by (intro mult_left_mono) auto
  with f(1,2) show "xdim = 1" by simp
  with f show "ydim = 1" by simp
qed

lemma row_first:
  fixes i y :: int
  assumes "0 \<le> i" "0 < y"
  shows "i < y \<longleftrightarrow> i div y = 0"
  using assms by (auto simp: zdiv_eq_0_iff)

lemma row_bound:
  fixes i x y :: int
  assumes "0 \<le> i" "0 < y" "i < x * y"
  shows "i div y \<le> x - 1"
proof -
  have "i \<le> (x * y - 1)" using assms by simp
  then have "i div y \<le> (x * y - 1) div y" using assms(2) by (rule zdiv_mono1)
  also have "x * y - 1 = (y - 1) + (x - 1) * y" by (simp add: algebra_simps)
  also have "((y - 1) + (x - 1) * y) div y = (x - 1) + (y - 1) div y"
    using assms(2) by (intro div_mult_self1) simp
  also have "(y - 1) div y = 0" using assms(2) by (intro div_pos_pos_trivial) simp_all
  finally show ?thesis by simp
qed

lemma row_last:
  fixes i x y :: int
  assumes "0 \<le> i" "0 < y" "i < x * y"
  shows "(x - 1) * y \<le> i \<longleftrightarrow> i div y = x - 1"
proof
  assume "(x - 1) * y \<le> i"
  then have "((x - 1) * y) div y \<le> i div y" using assms(2) by (rule zdiv_mono1)
  then have "x - 1 \<le> i div y" using assms(2) by simp
  with row_bound [OF assms] show "i div y = x - 1" by simp
next
  assume e: "i div y = x - 1"
  have "i = i div y * y + i mod y" by simp
  moreover have "0 \<le> i mod y" using assms(2) by simp
  ultimately have "i div y * y \<le> i" by linarith
  then show "(x - 1) * y \<le> i" using e by simp
qed

lemma worker_neighbors_grid:
  assumes "1 \<le> xdim" "1 \<le> ydim" "0 \<le> i" "i < xdim * ydim"
  shows "nb_up (worker_neighbors xdim ydim i) =
           (if i div ydim = 0 then MPI_PROC_NULL else i - ydim)"
    and "nb_down (worker_neighbors xdim ydim i) =
           (if i div ydim = xdim - 1 then MPI_PROC_NULL else i + ydim)"
    and "nb_left (worker_neighbors xdim ydim i) =
           (if i mod ydim = 0 then MPI_PROC_NULL else i - 1)"
    and "nb_right (worker_neighbors xdim ydim i) =
           (if i mod ydim = ydim - 1 then MPI_PROC_NULL else i + 1)"
proof -
  have y: "0 < ydim" using assms(2) by simp
  show "nb_up (worker_neighbors xdim ydim i) =
           (if i div ydim = 0 then MPI_PROC_NULL else i - ydim)"
    using row_first [OF assms(3) y] by (simp add: worker_neighbors_def)
  show "nb_down (worker_neighbors xdim ydim i) =
           (if i div ydim = xdim - 1 then MPI_PROC_NULL else i + ydim)"
    using row_last [OF assms(3) y assms(4)] by (simp add: worker_neighbors_def)
  show "nb_left (worker_neighbors xdim ydim i) =
           (if i mod ydim = 0 then MPI_PROC_NULL else i - 1)"
    by (simp add: worker_neighbors_def)
  show "nb_right (worker_neighbors xdim ydim i) =
           (if i mod ydim = ydim - 1 then MPI_PROC_NULL else i + 1)"
    by (simp add: worker_neighbors_def)
qed

lemma master_neighbors_grid:
  assumes "1 \<le> W" "\<not> isPrime W" "partition_dims NX NY W = Some (xdim, ydim)"
  shows "master_neighbors W ydim = worker_neighbors xdim ydim 0"
proof (cases "W = 1")
  case True
  with assms(3) have "xdim = 1" "ydim = 1" using partition_dims_one by blast+
  with True show ?thesis by (simp add: master_neighbors_def worker_neighbors_def)
next
  case False
  note g = partition_dims_ge2 [OF assms(1) False assms(2,3)]
  from g have "0 < (xdim - 1) * ydim" by (intro mult_pos_pos) auto
  then have "\<not> (xdim - 1) * ydim \<le> 0" by simp
  then show ?thesis using False g
    by (simp add: master_neighbors_def worker_neighbors_def)
qed

lemma task_neighbors_grid:
  assumes "1 \<le> W" "\<not> isPrime W" "partition_dims NX NY W = Some (xdim, ydim)"
    and "0 \<le> i" "i < W"
  shows "nb_up (task_neighbors W xdim ydim i) =
           (if i div ydim = 0 then MPI_PROC_NULL else i - ydim)"
    and "nb_down (task_neighbors W xdim ydim i) =
           (if i div ydim = xdim - 1 then MPI_PROC_NULL else i + ydim)"
    and "nb_left (task_neighbors W xdim ydim i) =
           (if i mod ydim = 0 then MPI_PROC_NULL else i - 1)"
    and "nb_right (task_neighbors W xdim ydim i) =
           (if i mod ydim = ydim - 1 then MPI_PROC_NULL else i + 1)"
proof -
  note f = partition_dims_facts [OF assms(1,3)]
  have iW: "i < xdim * ydim" using assms(5) f(1) by simp
  have e: "task_neighbors W xdim ydim i = worker_neighbors xdim ydim i"
    using master_neighbors_grid [OF assms(1,2,3)] by (simp add: task_neighbors_def MASTER_def)
  show "nb_up (task_neighbors W xdim ydim i) =
           (if i div ydim = 0 then MPI_PROC_NULL else i - ydim)"
    unfolding e by (rule worker_neighbors_grid(1) [OF f(2,3) assms(4) iW])
  show "nb_down (task_neighbors W xdim ydim i) =
           (if i div ydim = xdim - 1 then MPI_PROC_NULL else i + ydim)"
    unfolding e by (rule worker_neighbors_grid(2) [OF f(2,3) assms(4) iW])
  show "nb_left (task_neighbors W xdim ydim i) =
           (if i mod ydim = 0 then MPI_PROC_NULL else i - 1)"
    unfolding e by (rule worker_neighbors_grid(3) [OF f(2,3) assms(4) iW])
  show "nb_right (task_neighbors W xdim ydim i) =
           (if i mod ydim = ydim - 1 then MPI_PROC_NULL else i + 1)"
    unfolding e by (rule worker_neighbors_grid(4) [OF f(2,3) assms(4) iW])
qed

lemma neighbor_not_null:
  fixes i ydim :: int
  assumes "1 \<le> ydim" "0 \<le> i"
  shows "i div ydim \<noteq> 0 \<Longrightarrow> i - ydim \<noteq> MPI_PROC_NULL"
    and "i + ydim \<noteq> MPI_PROC_NULL"
    and "i mod ydim \<noteq> 0 \<Longrightarrow> i - 1 \<noteq> MPI_PROC_NULL"
    and "i + 1 \<noteq> MPI_PROC_NULL"
proof -
  have y: "0 < ydim" using assms(1) by simp
  show "i div ydim \<noteq> 0 \<Longrightarrow> i - ydim \<noteq> MPI_PROC_NULL"
    using row_first [OF assms(2) y] by (simp add: MPI_PROC_NULL_def)
  show "i + ydim \<noteq> MPI_PROC_NULL" using assms by (simp add: MPI_PROC_NULL_def)
  show "i mod ydim \<noteq> 0 \<Longrightarrow> i - 1 \<noteq> MPI_PROC_NULL"
    using assms by (cases "i = 0") (auto simp: MPI_PROC_NULL_def)
  show "i + 1 \<noteq> MPI_PROC_NULL" using assms by (simp add: MPI_PROC_NULL_def)
qed



section \<open>Distribution and the time loop\<close>

subsection \<open>Scatter and gather, cell by cell\<close>

lemma upto_from_0: "0 \<le> n \<Longrightarrow> [0..n] = 0 # [1..n]"
  by (simp add: upto_rec1)

lemma upto_from_1: "1 \<le> n \<Longrightarrow> [1..n] = 1 # [2..n]"
  by (simp add: upto_rec1)

lemma cell_decode:
  fixes ny :: int
  assumes "0 \<le> iy" "iy < ny"
  shows "(ix * ny + iy) div ny = ix" "(ix * ny + iy) mod ny = iy"
proof -
  have ny: "ny \<noteq> 0" using assms by auto
  have "(iy + ix * ny) div ny = ix + iy div ny" using ny by (rule div_mult_self1)
  moreover have "iy div ny = 0" using assms by simp
  ultimately show "(ix * ny + iy) div ny = ix" by (simp add: add.commute)
  show "(ix * ny + iy) mod ny = iy" using assms by simp
qed

lemma scatter_block_cell:
  assumes "0 \<le> columns" "0 \<le> iy" "iy \<le> columns + 1"
  shows "cell (columns + 2) (scatter_block NY rows columns start u loc) ix iy =
     (if 1 \<le> ix \<and> ix \<le> rows \<and> 1 \<le> iy \<and> iy \<le> columns
      then u (start + (ix - 1) * NY + (iy - 1)) else cell (columns + 2) loc ix iy)"
proof -
  let ?ny = "columns + 2"
  let ?f = "\<lambda>r c. (r + 1) * ?ny + (c + 1)"
  let ?h = "\<lambda>x. u (start + (x div ?ny - 1) * NY + (x mod ?ny - 1))"
  let ?x = "ix * ?ny + iy"
  have a: "scatter_block NY rows columns start u loc ?x =
          (if ?x \<in> (\<lambda>(r, c). ?f r c) ` (set [0..rows - 1] \<times> set [0..columns - 1])
           then ?h ?x else loc ?x)"
    unfolding scatter_block_def
  proof (rule fold2_upd_apply [where g = "\<lambda>r c. u (start + r * NY + c)"])
    show "\<And>i j m. m (?f i j := u (start + i * NY + j)) = m (?f i j := u (start + i * NY + j))"
      by (rule refl)
    fix r c assume "r \<in> set [0..rows - 1]" "c \<in> set [0..columns - 1]"
    then have c: "0 \<le> c + 1" "c + 1 < ?ny" by simp_all
    show "u (start + r * NY + c) = ?h (?f r c)"
      unfolding cell_decode [OF c] by simp
  qed
  have iy: "0 \<le> iy" "iy < ?ny" using assms by simp_all
  have b: "?x \<in> (\<lambda>(r, c). ?f r c) ` (set [0..rows - 1] \<times> set [0..columns - 1]) \<longleftrightarrow>
           1 \<le> ix \<and> ix \<le> rows \<and> 1 \<le> iy \<and> iy \<le> columns"
  proof
    assume "?x \<in> (\<lambda>(r, c). ?f r c) ` (set [0..rows - 1] \<times> set [0..columns - 1])"
    then obtain r c where rc: "0 \<le> r" "r \<le> rows - 1" "0 \<le> c" "c \<le> columns - 1"
      and e: "?x = (r + 1) * ?ny + (c + 1)"
      by auto
    have "ix = r + 1 \<and> iy = c + 1"
      by (rule cell_unique [OF iy _ _ e]) (use rc in simp_all)
    with rc show "1 \<le> ix \<and> ix \<le> rows \<and> 1 \<le> iy \<and> iy \<le> columns" by simp
  next
    assume c: "1 \<le> ix \<and> ix \<le> rows \<and> 1 \<le> iy \<and> iy \<le> columns"
    have "?x = ?f (ix - 1) (iy - 1)" by simp
    moreover have "(ix - 1, iy - 1) \<in> set [0..rows - 1] \<times> set [0..columns - 1]"
      using c by simp
    ultimately show "?x \<in> (\<lambda>(r, c). ?f r c) ` (set [0..rows - 1] \<times> set [0..columns - 1])"
      by (metis (no_types, lifting) image_eqI case_prod_conv)
  qed
  show ?thesis unfolding cell_def a b cell_decode [OF iy] by (rule refl)
qed

lemma gather_block_other:
  assumes "\<And>r c. 0 \<le> r \<Longrightarrow> r < rows \<Longrightarrow> 0 \<le> c \<Longrightarrow> c < columns \<Longrightarrow> start + r * NY + c \<noteq> x"
  shows "gather_block NY rows columns start loc u x = u x"
  unfolding gather_block_def
proof (rule fold2_upd_other [where g = "\<lambda>r c. loc ((r + 1) * (columns + 2) + (c + 1))"])
  show "\<And>i j m. m (start + i * NY + j := loc ((i + 1) * (columns + 2) + (j + 1))) =
          m (start + i * NY + j := loc ((i + 1) * (columns + 2) + (j + 1)))"
    by (rule refl)
  fix r c assume "r \<in> set [0..rows - 1]" "c \<in> set [0..columns - 1]"
  then show "start + r * NY + c \<noteq> x" using assms [of r c] by simp
qed

lemma gather_block_value:
  assumes "\<exists>r c. 0 \<le> r \<and> r < rows \<and> 0 \<le> c \<and> c < columns \<and> start + r * NY + c = x"
    and "\<And>r c. 0 \<le> r \<Longrightarrow> r < rows \<Longrightarrow> 0 \<le> c \<Longrightarrow> c < columns \<Longrightarrow> start + r * NY + c = x \<Longrightarrow>
            loc ((r + 1) * (columns + 2) + (c + 1)) = v"
  shows "gather_block NY rows columns start loc u x = v"
  unfolding gather_block_def
proof (rule fold2_upd_hit [where g = "\<lambda>r c. loc ((r + 1) * (columns + 2) + (c + 1))"])
  show "\<And>i j m. m (start + i * NY + j := loc ((i + 1) * (columns + 2) + (j + 1))) =
          m (start + i * NY + j := loc ((i + 1) * (columns + 2) + (j + 1)))"
    by (rule refl)
  from assms(1) obtain r c where "0 \<le> r" "r < rows" "0 \<le> c" "c < columns"
    "start + r * NY + c = x" by (elim exE conjE)
  then have "r \<in> set [0..rows - 1]" "c \<in> set [0..columns - 1]" "start + r * NY + c = x"
    by simp_all
  then show "\<exists>i\<in>set [0..rows - 1]. \<exists>j\<in>set [0..columns - 1]. start + i * NY + j = x"
    by blast
  fix r c assume "r \<in> set [0..rows - 1]" "c \<in> set [0..columns - 1]" "start + r * NY + c = x"
  then show "loc ((r + 1) * (columns + 2) + (c + 1)) = v" using assms(2) [of r c] by simp
qed

lemma gather_block_keeps:
  assumes "u x = v"
    and "\<And>r c. 0 \<le> r \<Longrightarrow> r < rows \<Longrightarrow> 0 \<le> c \<Longrightarrow> c < columns \<Longrightarrow> start + r * NY + c = x \<Longrightarrow>
            loc ((r + 1) * (columns + 2) + (c + 1)) = v"
  shows "gather_block NY rows columns start loc u x = v"
proof (cases "\<exists>r c. 0 \<le> r \<and> r < rows \<and> 0 \<le> c \<and> c < columns \<and> start + r * NY + c = x")
  case True
  then show ?thesis by (rule gather_block_value) (use assms(2) in simp)
next
  case False
  then have "gather_block NY rows columns start loc u x = u x"
    by (intro gather_block_other) blast
  with assms(1) show ?thesis by simp
qed

lemma gather_block_cell:
  assumes "0 \<le> r" "r < rows" "0 \<le> c" "c < columns" "columns \<le> NY"
  shows "gather_block NY rows columns start loc u (start + r * NY + c) =
           cell (columns + 2) loc (r + 1) (c + 1)"
proof (rule gather_block_value)
  show "\<exists>r' c'. 0 \<le> r' \<and> r' < rows \<and> 0 \<le> c' \<and> c' < columns \<and>
          start + r' * NY + c' = start + r * NY + c"
    using assms by blast
  fix r' c' assume h: "0 \<le> r'" "r' < rows" "0 \<le> c'" "c' < columns"
    "start + r' * NY + c' = start + r * NY + c"
  have "r' * NY + c' = r * NY + c" using h(5) by simp
  then have "r' = r \<and> c' = c"
    by (rule cell_unique [rotated -1]) (use h assms in simp_all)
  then show "loc ((r' + 1) * (columns + 2) + (c' + 1)) = cell (columns + 2) loc (r + 1) (c + 1)"
    by (simp add: cell_def)
qed

lemma gather_fold_keeps:
  assumes "\<And>k r c. k \<in> set ks \<Longrightarrow> 0 \<le> r \<Longrightarrow> r < rows \<Longrightarrow> 0 \<le> c \<Longrightarrow> c < columns \<Longrightarrow>
             displs k * columns + r * NY + c = x \<Longrightarrow>
             loc k ((r + 1) * (columns + 2) + (c + 1)) = v"
  shows "u x = v \<Longrightarrow>
     fold (\<lambda>k u. gather_block NY rows columns (displs k * columns) (loc k) u) ks u x = v"
  using assms
proof (induction ks arbitrary: u)
  case Nil
  then show ?case by simp
next
  case (Cons k ks)
  have "gather_block NY rows columns (displs k * columns) (loc k) u x = v"
    by (rule gather_block_keeps [where u = u and x = x and v = v, OF Cons.prems(1)])
      (use Cons.prems(2) [of k] in simp)
  then have "fold (\<lambda>k u. gather_block NY rows columns (displs k * columns) (loc k) u) ks
               (gather_block NY rows columns (displs k * columns) (loc k) u) x = v"
    by (rule Cons.IH) (use Cons.prems(2) in simp)
  then show ?case by simp
qed

lemma inidat_cell:
  assumes "0 \<le> iy" "iy < ny"
  shows "inidat nx ny u (ix * ny + iy) =
     (if 0 \<le> ix \<and> ix < nx then real_of_int (ix * (nx - ix - 1) * iy * (ny - iy - 1))
      else u (ix * ny + iy))"
proof -
  let ?f = "\<lambda>ix iy. ix * ny + iy"
  let ?h = "\<lambda>x. real_of_int ((x div ny) * (nx - x div ny - 1) * (x mod ny) * (ny - x mod ny - 1))"
  let ?x = "ix * ny + iy"
  have a: "inidat nx ny u ?x =
          (if ?x \<in> (\<lambda>(r, c). ?f r c) ` (set [0..nx - 1] \<times> set [0..ny - 1])
           then ?h ?x else u ?x)"
    unfolding inidat_def
  proof (rule fold2_upd_apply
      [where g = "\<lambda>ix iy. real_of_int (ix * (nx - ix - 1) * iy * (ny - iy - 1))"])
    show "\<And>i j m. m (?f i j := real_of_int (i * (nx - i - 1) * j * (ny - j - 1))) =
            m (?f i j := real_of_int (i * (nx - i - 1) * j * (ny - j - 1)))"
      by (rule refl)
    fix r c assume "r \<in> set [0..nx - 1]" "c \<in> set [0..ny - 1]"
    then have c: "0 \<le> c" "c < ny" by simp_all
    show "real_of_int (r * (nx - r - 1) * c * (ny - c - 1)) = ?h (?f r c)"
      unfolding cell_decode [OF c] by (rule refl)
  qed
  have b: "?x \<in> (\<lambda>(r, c). ?f r c) ` (set [0..nx - 1] \<times> set [0..ny - 1]) \<longleftrightarrow> 0 \<le> ix \<and> ix < nx"
  proof
    assume "?x \<in> (\<lambda>(r, c). ?f r c) ` (set [0..nx - 1] \<times> set [0..ny - 1])"
    then obtain r c where rc: "0 \<le> r" "r \<le> nx - 1" "0 \<le> c" "c \<le> ny - 1"
      and e: "?x = r * ny + c"
      by auto
    have "ix = r \<and> iy = c"
      by (rule cell_unique [OF assms _ _ e]) (use rc in simp_all)
    with rc show "0 \<le> ix \<and> ix < nx" by simp
  next
    assume c: "0 \<le> ix \<and> ix < nx"
    have "(ix, iy) \<in> set [0..nx - 1] \<times> set [0..ny - 1]"
      using c assms by simp
    then show "?x \<in> (\<lambda>(r, c). ?f r c) ` (set [0..nx - 1] \<times> set [0..ny - 1])"
      by (metis (no_types, lifting) image_eqI case_prod_conv)
  qed
  show ?thesis unfolding a b cell_decode [OF assms] by (rule refl)
qed

subsection \<open>The displacement table\<close>

lemma displs_inner:
  "fold (\<lambda>j (displs, disp). (displs (b + j := disp), disp + 1)) [a..c] (d, p) =
     ((\<lambda>x. if a \<le> x - b \<and> x - b \<le> c then p + (x - b - a) else d x),
      p + (if a \<le> c then c - a + 1 else 0))"
proof (induction a c arbitrary: d p rule: upto.induct)
  case (1 a c)
  show ?case
  proof (cases "a \<le> c")
    case True
    have l: "[a..c] = a # [a + 1..c]" using True by (rule upto_rec1)
    have "fold (\<lambda>j (displs, disp). (displs (b + j := disp), disp + 1)) [a..c] (d, p) =
          fold (\<lambda>j (displs, disp). (displs (b + j := disp), disp + 1)) [a + 1..c]
            (d (b + a := p), p + 1)"
      unfolding l by simp
    also have "\<dots> = ((\<lambda>x. if a + 1 \<le> x - b \<and> x - b \<le> c then p + 1 + (x - b - (a + 1))
                            else (d (b + a := p)) x),
                      p + 1 + (if a + 1 \<le> c then c - (a + 1) + 1 else 0))"
      by (rule "1.IH" [OF True])
    also have "\<dots> = ((\<lambda>x. if a \<le> x - b \<and> x - b \<le> c then p + (x - b - a) else d x),
                      p + (if a \<le> c then c - a + 1 else 0))"
      using True by (auto simp: fun_eq_iff)
    finally show ?thesis .
  next
    case False
    then show ?thesis by (auto simp: fun_eq_iff)
  qed
qed

lemma displs_row_eq:
  assumes "1 \<le> ydim"
  shows "displs_row ydim rows i (d, p) =
     ((\<lambda>x. if i * ydim \<le> x \<and> x < (i + 1) * ydim then p + (x - i * ydim) else d x),
      p + rows * ydim)"
proof -
  have "fold (\<lambda>j (displs, disp). (displs (i * ydim + j := disp), disp + 1)) [0..ydim - 1] (d, p) =
     ((\<lambda>x. if 0 \<le> x - i * ydim \<and> x - i * ydim \<le> ydim - 1 then p + (x - i * ydim - 0) else d x),
      p + (if 0 \<le> ydim - 1 then ydim - 1 - 0 + 1 else 0))"
    by (rule displs_inner)
  then show ?thesis using assms
    by (auto simp: displs_row_def fun_eq_iff algebra_simps)
qed

lemma displs_loop_rows:
  "displs_loop xdim ydim rows = fst (fold (displs_row ydim rows) [0..xdim - 1] (\<lambda>k. 0, 0))"
  unfolding displs_loop_def displs_row_def by (rule refl)

lemma displs_outer:
  assumes "1 \<le> ydim"
  shows "fold (displs_row ydim rows) [a..c] (d, a * (rows * ydim)) =
     ((\<lambda>x. if a \<le> c \<and> a * ydim \<le> x \<and> x < (c + 1) * ydim
            then (x div ydim) * (rows * ydim) + x mod ydim else d x),
      (if a \<le> c then (c + 1) * (rows * ydim) else a * (rows * ydim)))"
proof (induction a c arbitrary: d rule: upto.induct)
  case (1 a c)
  show ?case
  proof (cases "a \<le> c")
    case True
    have l: "[a..c] = a # [a + 1..c]" using True by (rule upto_rec1)
    define d1 where
      "d1 = (\<lambda>x. if a * ydim \<le> x \<and> x < (a + 1) * ydim then a * (rows * ydim) + (x - a * ydim)
                  else d x)"
    have p1: "a * (rows * ydim) + rows * ydim = (a + 1) * (rows * ydim)"
      by (simp add: algebra_simps)
    have "fold (displs_row ydim rows) [a..c] (d, a * (rows * ydim)) =
          fold (displs_row ydim rows) [a + 1..c] (d1, (a + 1) * (rows * ydim))"
      unfolding l d1_def by (simp add: displs_row_eq [OF assms] p1)
    also have "\<dots> = ((\<lambda>x. if a + 1 \<le> c \<and> (a + 1) * ydim \<le> x \<and> x < (c + 1) * ydim
            then (x div ydim) * (rows * ydim) + x mod ydim else d1 x),
      (if a + 1 \<le> c then (c + 1) * (rows * ydim) else (a + 1) * (rows * ydim)))"
      by (rule "1.IH" [OF True])
    also have "\<dots> = ((\<lambda>x. if a \<le> c \<and> a * ydim \<le> x \<and> x < (c + 1) * ydim
            then (x div ydim) * (rows * ydim) + x mod ydim else d x),
      (if a \<le> c then (c + 1) * (rows * ydim) else a * (rows * ydim)))"
    proof -
      have row_a: "(x div ydim) * (rows * ydim) + x mod ydim = a * (rows * ydim) + (x - a * ydim)"
        if "a * ydim \<le> x" "x < (a + 1) * ydim" for x
      proof -
        have x: "x = a * ydim + (x - a * ydim)" by simp
        have r: "0 \<le> x - a * ydim" "x - a * ydim < ydim" using that by (simp_all add: algebra_simps)
        have "x div ydim = a" "x mod ydim = x - a * ydim"
          using cell_decode [OF r, of a] by simp_all
        then show ?thesis by simp
      qed
      have ac: "(a + 1) * ydim \<le> (c + 1) * ydim" using True assms by (intro mult_right_mono) auto
      have f: "(if a + 1 \<le> c \<and> (a + 1) * ydim \<le> x \<and> x < (c + 1) * ydim
            then (x div ydim) * (rows * ydim) + x mod ydim else d1 x) =
           (if a \<le> c \<and> a * ydim \<le> x \<and> x < (c + 1) * ydim
            then (x div ydim) * (rows * ydim) + x mod ydim else d x)" for x
      proof (cases "a * ydim \<le> x \<and> x < (a + 1) * ydim")
        case True
        note inrow = True
        then have "\<not> (a + 1) * ydim \<le> x" by simp
        moreover have "x < (c + 1) * ydim" using inrow ac by linarith
        ultimately show ?thesis using inrow \<open>a \<le> c\<close> row_a [of x] by (simp add: d1_def)
      next
        case False
        have le: "a * ydim \<le> (a + 1) * ydim" using assms by (simp add: algebra_simps)
        show ?thesis
        proof (cases "a + 1 \<le> c \<and> (a + 1) * ydim \<le> x \<and> x < (c + 1) * ydim")
          case True
          then have "a * ydim \<le> x" using le by linarith
          with True \<open>a \<le> c\<close> show ?thesis by simp
        next
          case False
          note nf = False
          have "\<not> (a * ydim \<le> x \<and> x < (c + 1) * ydim)"
          proof
            assume h: "a * ydim \<le> x \<and> x < (c + 1) * ydim"
            with \<open>\<not> (a * ydim \<le> x \<and> x < (a + 1) * ydim)\<close> have x1: "(a + 1) * ydim \<le> x" by simp
            have "a + 1 \<le> c"
            proof (rule ccontr)
              assume "\<not> a + 1 \<le> c"
              with \<open>a \<le> c\<close> have "c = a" by simp
              with h x1 show False by simp
            qed
            with nf x1 h show False by simp
          qed
          then have rhs: "(if a \<le> c \<and> a * ydim \<le> x \<and> x < (c + 1) * ydim
            then (x div ydim) * (rows * ydim) + x mod ydim else d x) = d x"
            by (intro if_not_P) blast
          have lhs: "(if a + 1 \<le> c \<and> (a + 1) * ydim \<le> x \<and> x < (c + 1) * ydim
            then (x div ydim) * (rows * ydim) + x mod ydim else d1 x) = d1 x"
            using nf by (rule if_not_P)
          have "d1 x = d x"
            unfolding d1_def using \<open>\<not> (a * ydim \<le> x \<and> x < (a + 1) * ydim)\<close> by (rule if_not_P)
          with lhs rhs show ?thesis by simp
        qed
      qed
      show ?thesis using True by (simp add: f)
    qed
    finally show ?thesis .
  next
    case False
    then show ?thesis by simp
  qed
qed

lemma displs_loop_value:
  assumes "1 \<le> ydim" "0 \<le> k" "k < xdim * ydim"
  shows "displs_loop xdim ydim rows k = (k div ydim) * (rows * ydim) + k mod ydim"
proof -
  have x: "0 \<le> xdim - 1"
  proof (rule ccontr)
    assume "\<not> 0 \<le> xdim - 1"
    then have "xdim \<le> 0" by simp
    then have "xdim * ydim \<le> 0 * ydim" using assms(1) by (intro mult_right_mono) auto
    with assms(2,3) show False by simp
  qed
  have "fold (displs_row ydim rows) [0..xdim - 1] (\<lambda>k. 0, 0 * (rows * ydim)) =
     ((\<lambda>x. if 0 \<le> xdim - 1 \<and> 0 * ydim \<le> x \<and> x < (xdim - 1 + 1) * ydim
            then (x div ydim) * (rows * ydim) + x mod ydim else 0),
      (if 0 \<le> xdim - 1 then (xdim - 1 + 1) * (rows * ydim) else 0 * (rows * ydim)))"
    by (rule displs_outer [OF assms(1)])
  then show ?thesis using x assms(2,3) by (simp add: displs_loop_rows)
qed

lemma displs_loop_single: "displs_loop 1 1 rows 0 = 0"
  by (simp add: displs_loop_def)

subsection \<open>The edge cells are never written\<close>

lemma recv_col_other:
  assumes "0 \<le> iy" "iy < ny" "0 \<le> dcol" "dcol < ny" "iy \<noteq> dcol"
  shows "recv_col rows ny src scol dst dcol (ix * ny + iy) = dst (ix * ny + iy)"
  unfolding recv_col_def
proof (rule fold_upd_other [where f = "\<lambda>i. (1 + i) * ny + dcol"
      and g = "\<lambda>i. src ((1 + i) * ny + scol)"])
  show "\<And>j m. m ((1 + j) * ny + dcol := src ((1 + j) * ny + scol)) =
          m ((1 + j) * ny + dcol := src ((1 + j) * ny + scol))"
    by (rule refl)
  show "ix * ny + iy \<notin> (\<lambda>i. (1 + i) * ny + dcol) ` set [0..rows - 1]"
  proof
    assume "ix * ny + iy \<in> (\<lambda>i. (1 + i) * ny + dcol) ` set [0..rows - 1]"
    then obtain i where "i \<in> set [0..rows - 1]" "ix * ny + iy = (1 + i) * ny + dcol"
      by (rule imageE)
    from cell_unique [OF assms(1,2,3,4) this(2)] assms(5) show False by simp
  qed
qed

lemma recv_row_other:
  assumes "0 \<le> iy" "iy < ny" "columns + 1 < ny" "ix \<noteq> drow"
  shows "recv_row columns ny src srow dst drow (ix * ny + iy) = dst (ix * ny + iy)"
  unfolding recv_row_def
proof (rule fold_upd_other [where f = "\<lambda>j. drow * ny + 1 + j"
      and g = "\<lambda>j. src (srow * ny + 1 + j)"])
  show "\<And>j m. m (drow * ny + 1 + j := src (srow * ny + 1 + j)) =
          m (drow * ny + 1 + j := src (srow * ny + 1 + j))"
    by (rule refl)
  show "ix * ny + iy \<notin> (\<lambda>j. drow * ny + 1 + j) ` set [0..columns - 1]"
  proof
    assume "ix * ny + iy \<in> (\<lambda>j. drow * ny + 1 + j) ` set [0..columns - 1]"
    then obtain j where j0: "j \<in> set [0..columns - 1]" "ix * ny + iy = drow * ny + 1 + j"
      by (rule imageE)
    then have j: "0 \<le> j" "j \<le> columns - 1" "ix * ny + iy = drow * ny + (1 + j)"
      by simp_all
    have "ix = drow \<and> iy = 1 + j"
      by (rule cell_unique [OF assms(1,2) _ _ j(3)]) (use j assms(3) in simp_all)
    with assms(4) show False by simp
  qed
qed

lemma halo_exchange_interior:
  assumes "0 \<le> columns" "1 \<le> ix" "ix \<le> rows" "1 \<le> iy" "iy \<le> columns"
  shows "cell (columns + 2) (halo_exchange rows columns nb bufs b) ix iy =
           cell (columns + 2) b ix iy"
proof -
  let ?ny = "columns + 2"
  have iy: "0 \<le> iy" "iy < ?ny" using assms by simp_all
  have c1: "recv_col rows ?ny src scol dst 0 (ix * ?ny + iy) = dst (ix * ?ny + iy)"
    for src scol dst
    by (rule recv_col_other [OF iy]) (use assms in simp_all)
  have c2: "recv_col rows ?ny src scol dst (columns + 1) (ix * ?ny + iy) = dst (ix * ?ny + iy)"
    for src scol dst
    by (rule recv_col_other [OF iy]) (use assms in simp_all)
  have r1: "recv_row columns ?ny src srow dst (rows + 1) (ix * ?ny + iy) = dst (ix * ?ny + iy)"
    for src srow dst
    by (rule recv_row_other [OF iy]) (use assms in simp_all)
  have r2: "recv_row columns ?ny src srow dst 0 (ix * ?ny + iy) = dst (ix * ?ny + iy)"
    for src srow dst
    by (rule recv_row_other [OF iy]) (use assms in simp_all)
  show ?thesis
    unfolding cell_def halo_exchange_def Let_def by (simp add: c1 c2 r1 r2)
qed

lemma frozen_not_written:
  assumes "2 \<le> rows" "2 \<le> columns"
    and "rows = 2 \<longrightarrow> nb_up nb \<noteq> MPI_PROC_NULL \<or> nb_down nb \<noteq> MPI_PROC_NULL"
    and "columns = 2 \<longrightarrow> nb_left nb \<noteq> MPI_PROC_NULL \<or> nb_right nb \<noteq> MPI_PROC_NULL"
    and "frozen_cell rows columns nb ix iy"
  shows "(ix, iy) \<notin> ext_cells rows columns (nb_right nb) (nb_left nb) (nb_up nb) (nb_down nb)"
    and "\<not> (2 \<le> ix \<and> ix \<le> rows - 1 \<and> 2 \<le> iy \<and> iy \<le> columns - 1)"
proof -
  have "\<not> ext_perimeter rows columns (nb_right nb) (nb_left nb) (nb_up nb) (nb_down nb) ix iy"
    using assms(5)
    unfolding frozen_cell_def ext_perimeter_def top_row_def bottom_row_def left_col_def
      right_col_def
    by auto
  then show "(ix, iy) \<notin> ext_cells rows columns (nb_right nb) (nb_left nb) (nb_up nb) (nb_down nb)"
    using ext_cells_perimeter [OF assms(1,2,3,4), of ix iy] by simp
  show "\<not> (2 \<le> ix \<and> ix \<le> rows - 1 \<and> 2 \<le> iy \<and> iy \<le> columns - 1)"
    using assms(5) unfolding frozen_cell_def by auto
qed

lemma passes_keep_frozen:
  assumes "2 \<le> rows" "2 \<le> columns"
    and "rows = 2 \<longrightarrow> nb_up nb \<noteq> MPI_PROC_NULL \<or> nb_down nb \<noteq> MPI_PROC_NULL"
    and "columns = 2 \<longrightarrow> nb_left nb \<noteq> MPI_PROC_NULL \<or> nb_right nb \<noteq> MPI_PROC_NULL"
    and "frozen_cell rows columns nb ix iy"
  shows "cell (columns + 2) (updateInternal 2 (rows - 1) columns cur nxt) ix iy =
           cell (columns + 2) nxt ix iy"
    and "cell (columns + 2)
           (updateExternal 1 rows columns (nb_right nb) (nb_left nb) (nb_up nb) (nb_down nb)
              cur nxt) ix iy =
           cell (columns + 2) nxt ix iy"
proof -
  have c0: "0 \<le> columns" and c1: "1 \<le> columns" using assms(2) by simp_all
  have iy: "0 \<le> iy" "iy \<le> columns + 1" using assms(5) by (simp_all add: frozen_cell_def)
  note nw = frozen_not_written [OF assms]
  show "cell (columns + 2) (updateInternal 2 (rows - 1) columns cur nxt) ix iy =
           cell (columns + 2) nxt ix iy"
    using updateInternal_cell [OF c0 iy, of 2 "rows - 1" cur nxt ix] nw(2) by auto
  show "cell (columns + 2)
           (updateExternal 1 rows columns (nb_right nb) (nb_left nb) (nb_up nb) (nb_down nb)
              cur nxt) ix iy =
           cell (columns + 2) nxt ix iy"
    using updateExternal_cell [OF c1 iy, of rows "nb_right nb" "nb_left nb" "nb_up nb"
        "nb_down nb" cur nxt ix] nw(1)
    by simp
qed

lemma frozen_same_refl: "frozen_same W rows columns nb st st"
  by (simp add: frozen_same_def)

lemma frozen_same_exchange:
  assumes "0 \<le> columns" "frozen_same W rows columns nb st0 st"
  shows "frozen_same W rows columns nb st0
           (st (0 := (\<lambda>k. halo_exchange rows columns (nb k) (st 0) (st 0 k))))"
  unfolding frozen_same_def
proof (intro allI impI)
  fix k ix iy
  assume h: "0 \<le> k \<and> k < W \<and> frozen_cell rows columns (nb k) ix iy"
  then have c: "1 \<le> ix" "ix \<le> rows" "1 \<le> iy" "iy \<le> columns"
    by (simp_all add: frozen_cell_def)
  from assms(2) h have s: "cell (columns + 2) (st 0 k) ix iy = cell (columns + 2) (st0 0 k) ix iy"
    "cell (columns + 2) (st 1 k) ix iy = cell (columns + 2) (st0 1 k) ix iy"
    unfolding frozen_same_def by blast+
  show "cell (columns + 2)
          ((st (0 := (\<lambda>k. halo_exchange rows columns (nb k) (st 0) (st 0 k)))) 0 k) ix iy =
        cell (columns + 2) (st0 0 k) ix iy \<and>
        cell (columns + 2)
          ((st (0 := (\<lambda>k. halo_exchange rows columns (nb k) (st 0) (st 0 k)))) 1 k) ix iy =
        cell (columns + 2) (st0 1 k) ix iy"
    using s halo_exchange_interior [OF assms(1) c] by simp
qed

lemma frozen_same_step:
  assumes nd: "nondegenerate W rows columns nb" and fs: "frozen_same W rows columns nb st0 st"
  shows "frozen_same W rows columns nb st0 (time_step rows columns nb it st)"
  unfolding frozen_same_def
proof (intro allI impI)
  fix k ix iy
  assume h: "0 \<le> k \<and> k < W \<and> frozen_cell rows columns (nb k) ix iy"
  then have c: "1 \<le> ix" "ix \<le> rows" "1 \<le> iy" "iy \<le> columns"
    and fc: "frozen_cell rows columns (nb k) ix iy"
    by (simp_all add: frozen_cell_def)
  from nd h have r: "2 \<le> rows" "2 \<le> columns"
    "rows = 2 \<longrightarrow> nb_up (nb k) \<noteq> MPI_PROC_NULL \<or> nb_down (nb k) \<noteq> MPI_PROC_NULL"
    "columns = 2 \<longrightarrow> nb_left (nb k) \<noteq> MPI_PROC_NULL \<or> nb_right (nb k) \<noteq> MPI_PROC_NULL"
    unfolding nondegenerate_def by blast+
  have c0: "0 \<le> columns" using r(2) by simp
  from fs h have s: "cell (columns + 2) (st 0 k) ix iy = cell (columns + 2) (st0 0 k) ix iy"
    "cell (columns + 2) (st 1 k) ix iy = cell (columns + 2) (st0 1 k) ix iy"
    unfolding frozen_same_def by blast+
  note pk = passes_keep_frozen [OF r fc]
  note hx = halo_exchange_interior [OF c0 c]
  have z: "it mod 2 = 0 \<or> it mod 2 = 1" by presburger
  then show "cell (columns + 2) (time_step rows columns nb it st 0 k) ix iy =
               cell (columns + 2) (st0 0 k) ix iy \<and>
             cell (columns + 2) (time_step rows columns nb it st 1 k) ix iy =
               cell (columns + 2) (st0 1 k) ix iy"
  proof
    assume "it mod 2 = 0"
    then show ?thesis
      unfolding time_step_def Let_def using s by (simp add: pk hx)
  next
    assume "it mod 2 = 1"
    then show ?thesis
      unfolding time_step_def Let_def using s by (simp add: pk hx)
  qed
qed

lemma frozen_same_steps:
  assumes nd: "nondegenerate W rows columns nb"
  shows "frozen_same W rows columns nb st0 st \<Longrightarrow>
           frozen_same W rows columns nb st0 (fold (time_step rows columns nb) its st)"
proof (induction its arbitrary: st)
  case Nil
  then show ?case by simp
next
  case (Cons it its)
  have "frozen_same W rows columns nb st0 (time_step rows columns nb it st)"
    by (rule frozen_same_step [OF nd Cons.prems])
  then have "frozen_same W rows columns nb st0
               (fold (time_step rows columns nb) its (time_step rows columns nb it st))"
    by (rule Cons.IH)
  then show ?case by simp
qed

subsection \<open>Geometry of the block grid\<close>

lemma grid_nondegenerate:
  assumes "1 \<le> W" "\<not> isPrime W" "partition_dims NX NY W = Some (xdim, ydim)"
    and "2 \<le> NX div xdim" "2 \<le> NY div ydim" "3 \<le> NX" "3 \<le> NY"
  shows "nondegenerate W (NX div xdim) (NY div ydim) (task_neighbors W xdim ydim)"
  unfolding nondegenerate_def
proof (intro conjI allI impI)
  show "2 \<le> NX div xdim" "2 \<le> NY div ydim" by (rule assms)+
next
  fix k assume k: "0 \<le> k \<and> k < W" and two: "NX div xdim = 2"
  then have k0: "0 \<le> k" and kW: "k < W" by simp_all
  note g = task_neighbors_grid [OF assms(1,2,3) k0 kW]
  note f = partition_dims_facts [OF assms(1,3)]
  note n = neighbor_not_null [OF f(3) k0]
  show "nb_up (task_neighbors W xdim ydim k) \<noteq> MPI_PROC_NULL \<or>
        nb_down (task_neighbors W xdim ydim k) \<noteq> MPI_PROC_NULL"
  proof (rule ccontr)
    assume "\<not> ?thesis"
    then have "k div ydim = 0" "k div ydim = xdim - 1"
      unfolding g using n by (auto split: if_splits)
    then have "xdim = 1" by simp
    with two assms(6) show False by simp
  qed
next
  fix k assume k: "0 \<le> k \<and> k < W" and two: "NY div ydim = 2"
  then have k0: "0 \<le> k" and kW: "k < W" by simp_all
  note g = task_neighbors_grid [OF assms(1,2,3) k0 kW]
  note f = partition_dims_facts [OF assms(1,3)]
  note n = neighbor_not_null [OF f(3) k0]
  show "nb_left (task_neighbors W xdim ydim k) \<noteq> MPI_PROC_NULL \<or>
        nb_right (task_neighbors W xdim ydim k) \<noteq> MPI_PROC_NULL"
  proof (rule ccontr)
    assume "\<not> ?thesis"
    then have "k mod ydim = 0" "k mod ydim = ydim - 1"
      unfolding g using n by (auto split: if_splits)
    then have "ydim = 1" by simp
    with two assms(7) show False by simp
  qed
qed

lemma first_block:
  fixes b R r :: int
  assumes "0 \<le> b" "1 \<le> R" "0 \<le> r" "b * R + r = 0"
  shows "b = 0" "r = 0"
proof -
  have "0 \<le> b * R" using assms(1,2) by (intro mult_nonneg_nonneg) auto
  with assms(3,4) have z: "b * R = 0" "r = 0" by linarith+
  then show "r = 0" by simp
  from z(1) assms(2) show "b = 0" by (simp add: mult_eq_0_iff)
qed

lemma last_block:
  fixes b X R r N :: int
  assumes "b \<le> X - 1" "1 \<le> R" "r \<le> R - 1" "X * R \<le> N" "b * R + r = N - 1"
  shows "b = X - 1" "r = R - 1"
proof -
  show b: "b = X - 1"
  proof (rule ccontr)
    assume "b \<noteq> X - 1"
    with assms(1) have "b \<le> X - 2" by simp
    then have "b * R \<le> (X - 2) * R" using assms(2) by (intro mult_right_mono) auto
    also have "(X - 2) * R = X * R - 2 * R" by (simp add: algebra_simps)
    finally have "b * R + r \<le> X * R - 2 * R + (R - 1)" using assms(3) by linarith
    with assms(2,4,5) show False by linarith
  qed
  have "(X - 1) * R = X * R - R" by (simp add: algebra_simps)
  with assms(5) b have "X * R - R + r = N - 1" by simp
  with assms(3,4) show "r = R - 1" by linarith
qed

lemma boundary_is_frozen:
  assumes W: "1 \<le> W" "\<not> isPrime W" "partition_dims NX NY W = Some (xdim, ydim)"
    and k: "0 \<le> k" "k < W"
    and shape: "1 \<le> NX div xdim" "1 \<le> NY div ydim" "ydim * (NY div ydim) = NY" "0 \<le> NX"
    and rc: "0 \<le> r" "r < NX div xdim" "0 \<le> c" "c < NY div ydim"
    and hit: "displs_loop xdim ydim (NX div xdim) k * (NY div ydim) + r * NY + c = i * NY + j"
    and ij: "0 \<le> j" "j < NY" "i = 0 \<or> i = NX - 1 \<or> j = 0 \<or> j = NY - 1"
  shows "frozen_cell (NX div xdim) (NY div ydim) (task_neighbors W xdim ydim k) (r + 1) (c + 1)"
proof -
  let ?R = "NX div xdim" and ?C = "NY div ydim"
  let ?bi = "k div ydim" and ?bj = "k mod ydim"
  note f = partition_dims_facts [OF W(1,3)]
  have y: "0 < ydim" using f(3) by simp
  have kxy: "k < xdim * ydim" using k(2) f(1) by simp
  have bi: "0 \<le> ?bi" "?bi \<le> xdim - 1"
    using k(1) y row_bound [OF k(1) y kxy] by (simp_all add: pos_imp_zdiv_nonneg_iff)
  have bj: "0 \<le> ?bj" "?bj \<le> ydim - 1" using y by simp_all
  have XR: "xdim * ?R \<le> NX"
  proof -
    have "NX = ?R * xdim + NX mod xdim" by simp
    moreover have "0 \<le> NX mod xdim" using f(2) by simp
    ultimately have "?R * xdim \<le> NX" by linarith
    then show ?thesis by (simp add: mult.commute)
  qed
  have d: "displs_loop xdim ydim ?R k = ?bi * (?R * ydim) + ?bj"
    by (rule displs_loop_value [OF f(3) k(1) kxy])
  have "(?bi * (?R * ydim) + ?bj) * ?C = ?bi * ?R * (ydim * ?C) + ?bj * ?C"
    by (simp add: algebra_simps)
  also have "\<dots> = ?bi * ?R * NY + ?bj * ?C" by (simp only: shape(3))
  finally have start: "displs_loop xdim ydim ?R k * ?C = ?bi * ?R * NY + ?bj * ?C"
    unfolding d .
  have e: "(?bi * ?R + r) * NY + (?bj * ?C + c) = i * NY + j"
    using hit unfolding start by (simp add: algebra_simps)
  have col0: "0 \<le> ?bj * ?C + c"
  proof -
    have "0 \<le> ?bj * ?C" using bj(1) shape(2) by (intro mult_nonneg_nonneg) auto
    with rc(3) show ?thesis by simp
  qed
  have colN: "?bj * ?C + c < NY"
  proof -
    have "?bj * ?C \<le> (ydim - 1) * ?C" using bj(2) shape(2) by (intro mult_right_mono) auto
    also have "(ydim - 1) * ?C = ydim * ?C - ?C" by (simp add: algebra_simps)
    also have "\<dots> = NY - ?C" by (simp only: shape(3))
    finally show ?thesis using rc(4) by linarith
  qed
  have u: "?bi * ?R + r = i \<and> ?bj * ?C + c = j"
    by (rule cell_unique [OF col0 colN ij(1,2) e])
  then have ie: "?bi * ?R + r = i" and je: "?bj * ?C + c = j" by simp_all
  note g = task_neighbors_grid [OF W k]
  have inside: "1 \<le> r + 1" "r + 1 \<le> ?R" "1 \<le> c + 1" "c + 1 \<le> ?C" using rc by simp_all
  from ij(3) have "nb_up (task_neighbors W xdim ydim k) = MPI_PROC_NULL \<and> r + 1 = 1 \<or>
      nb_down (task_neighbors W xdim ydim k) = MPI_PROC_NULL \<and> r + 1 = ?R \<or>
      nb_left (task_neighbors W xdim ydim k) = MPI_PROC_NULL \<and> c + 1 = 1 \<or>
      nb_right (task_neighbors W xdim ydim k) = MPI_PROC_NULL \<and> c + 1 = ?C"
  proof (elim disjE)
    assume "i = 0"
    with ie have "?bi * ?R + r = 0" by simp
    from first_block [OF bi(1) shape(1) rc(1) this] show ?thesis by (simp add: g)
  next
    assume "i = NX - 1"
    with ie have "?bi * ?R + r = NX - 1" by simp
    from last_block [OF bi(2) shape(1) _ XR this] rc(2) show ?thesis by (simp add: g)
  next
    assume "j = 0"
    with je have "?bj * ?C + c = 0" by simp
    from first_block [OF bj(1) shape(2) rc(3) this] show ?thesis by (simp add: g)
  next
    assume "j = NY - 1"
    with je have "?bj * ?C + c = NY - 1" by simp
    moreover have "ydim * ?C \<le> NY" using shape(3) by simp
    ultimately have "?bj = ydim - 1" "c = ?C - 1"
      using last_block [OF bj(2) shape(2), of c NY] rc(4) by simp_all
    then show ?thesis by (simp add: g)
  qed
  with inside show ?thesis unfolding frozen_cell_def by simp
qed

subsection \<open>The run, unfolded\<close>

lemma heat2D_unfold:
  assumes "\<not> isPrime W" "(NX * NY) mod W = 0" "partition_dims NX NY W = Some (xdim, ydim)"
  shows "heat2D NX NY steps W u =
     Some (gather_field NY (NX div xdim) (NY div ydim) (displs_loop xdim ydim (NX div xdim)) W
             (fold (time_step (NX div xdim) (NY div ydim) (task_neighbors W xdim ydim)) [1..steps]
                ((initial_locals NY (NX div xdim) (NY div ydim)
                    (displs_loop xdim ydim (NX div xdim)) u)
                 (0 := (\<lambda>k. halo_exchange (NX div xdim) (NY div ydim)
                           (task_neighbors W xdim ydim k)
                           (initial_locals NY (NX div xdim) (NY div ydim)
                              (displs_loop xdim ydim (NX div xdim)) u 0)
                           (initial_locals NY (NX div xdim) (NY div ydim)
                              (displs_loop xdim ydim (NX div xdim)) u 0 k))))
                (steps mod 2))
             u)"
  using assms by (simp add: heat2D_def Let_def)

lemma floor_sqrt_eq:
  assumes "0 \<le> r" "r * r \<le> n" "n < (r + 1) * (r + 1)"
  shows "floor_sqrt n = r"
proof -
  have rr: "0 \<le> r * r" by simp
  have n: "0 \<le> n" by (rule order_trans [OF rr assms(2)])
  have le: "r \<le> floor_sqrt n" by (rule floor_sqrt_upper [OF n assms(1,2)])
  have "floor_sqrt n \<le> r"
  proof (rule ccontr)
    assume "\<not> floor_sqrt n \<le> r"
    then have "r + 1 \<le> floor_sqrt n" by simp
    then have "(r + 1) * (r + 1) \<le> floor_sqrt n * floor_sqrt n"
      using assms(1) by (intro mult_mono) auto
    with floor_sqrt_spec(2) [OF n] assms(3) show False by linarith
  qed
  with le show ?thesis by simp
qed

lemma partition_dims_4_4_1: "partition_dims 4 4 1 = Some (1, 1)"
  by (simp add: partition_dims_def floor_sqrt_def isqrt_from.simps find_dims.simps)

lemma partition_dims_4_4_4: "partition_dims 4 4 4 = Some (2, 2)"
  by (simp add: partition_dims_def floor_sqrt_def isqrt_from.simps find_dims.simps)

lemma partition_dims_8192: "partition_dims NXPROB NYPROB 8192 = Some (64, 128)"
proof -
  have s: "floor_sqrt 8192 = 90" by (rule floor_sqrt_eq) simp_all
  show ?thesis
    by (simp add: partition_dims_def s find_dims.simps NXPROB_def NYPROB_def)
qed

lemma partition_dims_81920: "partition_dims NXPROB NYPROB 81920 = Some (256, 320)"
proof -
  have s: "floor_sqrt 81920 = 286" by (rule floor_sqrt_eq) simp_all
  show ?thesis
    by (simp add: partition_dims_def s find_dims.simps NXPROB_def NYPROB_def)
qed

lemma task_neighbors_single:
  "task_neighbors 1 1 1 0 =
     \<lparr>nb_left = MPI_PROC_NULL, nb_right = MPI_PROC_NULL, nb_up = MPI_PROC_NULL,
      nb_down = MPI_PROC_NULL\<rparr>"
  by (simp add: task_neighbors_def master_neighbors_def MASTER_def)

lemma heat2D_4x4_one_step:
  "heat2D 4 4 1 1 u =
     Some (gather_block 4 4 4 0
             (updateExternal 1 4 4 MPI_PROC_NULL MPI_PROC_NULL MPI_PROC_NULL MPI_PROC_NULL
                (scatter_block 4 4 4 0 u (\<lambda>off. 0))
                (updateInternal 2 3 4 (scatter_block 4 4 4 0 u (\<lambda>off. 0)) (\<lambda>off. 0)))
             u)"
  by (simp add: heat2D_def partition_dims_4_4_1 isPrime_def Let_def displs_loop_single
      upto_from_0 upto_from_1 initial_locals_def task_neighbors_single halo_exchange_def
      time_step_def gather_field_def)

lemma inidat_cell_value:
  assumes "0 \<le> iy" "iy < ny"
  shows "cell ny (inidat nx ny u) ix iy =
     (if 0 \<le> ix \<and> ix < nx then real_of_int (ix * (nx - ix - 1) * iy * (ny - iy - 1))
      else cell ny u ix iy)"
  unfolding cell_def by (rule inidat_cell [OF assms])

lemma one_step_4x4_cell:
  assumes "0 \<le> i" "i < 4" "0 \<le> j" "j < 4"
  shows "final_cell 4 (heat2D 4 4 1 1 u) i j =
           Some (if 1 \<le> i \<and> i \<le> 2 \<and> 1 \<le> j \<and> j \<le> 2 then stencil 4 u i j else 0)"
proof -
  define cur where "cur = scatter_block 4 4 4 0 u (\<lambda>off. 0)"
  define mid where "mid = updateInternal 2 3 4 cur (\<lambda>off. 0)"
  define nxt where
    "nxt = updateExternal 1 4 4 MPI_PROC_NULL MPI_PROC_NULL MPI_PROC_NULL MPI_PROC_NULL cur mid"
  have run: "heat2D 4 4 1 1 u = Some (gather_block 4 4 4 0 nxt u)"
    unfolding nxt_def mid_def cur_def by (rule heat2D_4x4_one_step)
  have cur: "cell 6 cur ix iy =
       (if 1 \<le> ix \<and> ix \<le> 4 \<and> 1 \<le> iy \<and> iy \<le> 4 then u ((ix - 1) * 4 + (iy - 1)) else 0)"
    if "0 \<le> iy" "iy \<le> 5" for ix iy
    using scatter_block_cell [of 4 iy 4 4 0 u "\<lambda>off. 0" ix] that
    by (simp add: cur_def cell_def)
  have mid: "cell 6 mid ix iy =
       (if 2 \<le> ix \<and> ix \<le> 3 \<and> 2 \<le> iy \<and> iy \<le> 3 then stencil 6 cur ix iy else 0)"
    if "0 \<le> iy" "iy \<le> 5" for ix iy
    using updateInternal_cell [of 4 iy 2 3 cur "\<lambda>off. 0" ix] that
    by (simp add: mid_def cell_def)
  have ext: "(ix, iy) \<in> ext_cells 4 4 MPI_PROC_NULL MPI_PROC_NULL MPI_PROC_NULL MPI_PROC_NULL
       \<longleftrightarrow> 2 \<le> ix \<and> ix \<le> 3 \<and> 2 \<le> iy \<and> iy \<le> 3" for ix iy
    by (auto simp: ext_cells_def top_row_def bottom_row_def left_col_def right_col_def)
  have nxt: "cell 6 nxt ix iy =
       (if 2 \<le> ix \<and> ix \<le> 3 \<and> 2 \<le> iy \<and> iy \<le> 3 then stencil 6 cur ix iy else 0)"
    if "0 \<le> iy" "iy \<le> 5" for ix iy
    using updateExternal_cell [of 4 iy 4 MPI_PROC_NULL MPI_PROC_NULL MPI_PROC_NULL MPI_PROC_NULL
        cur mid ix] that mid [OF that]
    by (simp add: nxt_def ext)
  have st: "stencil 6 cur ix iy = stencil 4 u (ix - 1) (iy - 1)"
    if "2 \<le> ix" "ix \<le> 3" "2 \<le> iy" "iy \<le> 3" for ix iy
    unfolding stencil_cell using that by (simp add: cur) (simp add: cell_def algebra_simps)
  have "gather_block 4 4 4 0 nxt u (0 + i * 4 + j) = cell (4 + 2) nxt (i + 1) (j + 1)"
    by (rule gather_block_cell) (use assms in simp_all)
  then have "gather_block 4 4 4 0 nxt u (i * 4 + j) = cell 6 nxt (i + 1) (j + 1)" by simp
  also have "\<dots> = (if 1 \<le> i \<and> i \<le> 2 \<and> 1 \<le> j \<and> j \<le> 2 then stencil 4 u i j else 0)"
    using assms by (simp add: nxt st)
  finally show ?thesis by (simp add: final_cell_def run)
qed

subsection \<open>Narrowing and a small partition\<close>

lemma int_of_long_id:
  "- 2147483648 \<le> v \<Longrightarrow> v < 2147483648 \<Longrightarrow> int_of_long v = v"
  by (simp add: int_of_long_def)

lemma partition_dims_2_3_1: "partition_dims 2 3 1 = Some (1, 1)"
proof -
  have s: "floor_sqrt 1 = 1" by (rule floor_sqrt_eq) simp_all
  show ?thesis by (simp add: partition_dims_def s find_dims.simps)
qed

section \<open>The interior pass\<close>

text \<open>
  Claim C3. For a current buffer \<open>cur\<close> of shape \<open>(rows+2) \<times> (columns+2)\<close>, the call
  \<^verbatim>\<open>updateInternal(2, rows-1, columns, cur, nxt)\<close> changes exactly the cells \<open>(ix, iy)\<close> with
  \<open>2 \<le> ix \<le> rows-1\<close> and \<open>2 \<le> iy \<le> columns-1\<close>: each of them receives
  \<open>cur(ix,iy) + 0.1 (cur(ix+1,iy) + cur(ix-1,iy) - 2 cur(ix,iy))
    + 0.1 (cur(ix,iy+1) + cur(ix,iy-1) - 2 cur(ix,iy))\<close>,
  every other cell of the next buffer keeps its value, and the result depends on the current
  buffer only through the cells \<open>1..rows \<times> 1..columns\<close> (it reads no halo cell).
  The arithmetic is that of the reals.
\<close>

theorem updateInternal_interior:
  assumes "0 \<le> columns"
  shows "(0 \<le> iy \<and> iy \<le> columns + 1 \<longrightarrow>
            cell (columns + 2) (updateInternal 2 (rows - 1) columns cur nxt) ix iy =
              (if 2 \<le> ix \<and> ix \<le> rows - 1 \<and> 2 \<le> iy \<and> iy \<le> columns - 1
               then cell (columns + 2) cur ix iy +
                 1 / 10 * (cell (columns + 2) cur (ix + 1) iy + cell (columns + 2) cur (ix - 1) iy
                             - 2 * cell (columns + 2) cur ix iy) +
                 1 / 10 * (cell (columns + 2) cur ix (iy + 1) + cell (columns + 2) cur ix (iy - 1)
                             - 2 * cell (columns + 2) cur ix iy)
               else cell (columns + 2) nxt ix iy)) \<and>
         ((\<forall>jx jy. 1 \<le> jx \<and> jx \<le> rows \<and> 1 \<le> jy \<and> jy \<le> columns \<longrightarrow>
                    cell (columns + 2) cur' jx jy = cell (columns + 2) cur jx jy) \<longrightarrow>
            updateInternal 2 (rows - 1) columns cur' nxt =
            updateInternal 2 (rows - 1) columns cur nxt)"
proof (intro conjI impI)
  assume "0 \<le> iy \<and> iy \<le> columns + 1"
  then show "cell (columns + 2) (updateInternal 2 (rows - 1) columns cur nxt) ix iy =
              (if 2 \<le> ix \<and> ix \<le> rows - 1 \<and> 2 \<le> iy \<and> iy \<le> columns - 1
               then cell (columns + 2) cur ix iy +
                 1 / 10 * (cell (columns + 2) cur (ix + 1) iy + cell (columns + 2) cur (ix - 1) iy
                             - 2 * cell (columns + 2) cur ix iy) +
                 1 / 10 * (cell (columns + 2) cur ix (iy + 1) + cell (columns + 2) cur ix (iy - 1)
                             - 2 * cell (columns + 2) cur ix iy)
               else cell (columns + 2) nxt ix iy)"
    using updateInternal_cell [OF assms, of iy 2 "rows - 1" cur nxt ix]
    by (simp add: stencil_cell)
next
  assume agree: "\<forall>jx jy. 1 \<le> jx \<and> jx \<le> rows \<and> 1 \<le> jy \<and> jy \<le> columns \<longrightarrow>
                    cell (columns + 2) cur' jx jy = cell (columns + 2) cur jx jy"
  show "updateInternal 2 (rows - 1) columns cur' nxt = updateInternal 2 (rows - 1) columns cur nxt"
    by (rule interior_reads_only [OF agree])
qed

theorem updateInternal_interior_witness:
  "(0::int) \<le> 4 \<and>
   cell 6 (updateInternal 2 3 4 ramp zero_buf) 2 3 = 15 \<and>
   cell 6 (updateInternal 2 3 4 ramp zero_buf) 1 3 = 0 \<and>
   cell 6 (updateInternal 2 3 4 ramp zero_buf) 2 4 = 0 \<and>
   ramp_halo 0 \<noteq> ramp 0 \<and>
   updateInternal 2 3 4 ramp_halo zero_buf = updateInternal 2 3 4 ramp zero_buf"
proof -
  have h: "(0::int) \<le> 4" by simp
  have agree: "\<forall>jx jy. 1 \<le> jx \<and> jx \<le> 4 \<and> 1 \<le> jy \<and> jy \<le> 4 \<longrightarrow>
                 cell (4 + 2) ramp_halo jx jy = cell (4 + 2) ramp jx jy"
    by (auto simp: cell_def ramp_halo_def)
  note t = updateInternal_interior [where rows = 4 and cur = ramp and nxt = zero_buf, OF h]
  note t2 = t [where cur' = ramp_halo, THEN conjunct2, THEN mp, OF agree]
  have a: "cell 6 (updateInternal 2 3 4 ramp zero_buf) 2 3 = 15"
    using t [where ix = 2 and iy = 3, THEN conjunct1] by (simp add: cell_def ramp_def)
  have b: "cell 6 (updateInternal 2 3 4 ramp zero_buf) 1 3 = 0"
    using t [where ix = 1 and iy = 3, THEN conjunct1] by (simp add: cell_def zero_buf_def)
  have c: "cell 6 (updateInternal 2 3 4 ramp zero_buf) 2 4 = 0"
    using t [where ix = 2 and iy = 4, THEN conjunct1] by (simp add: cell_def zero_buf_def)
  have d: "ramp_halo 0 \<noteq> ramp 0" by (simp add: ramp_halo_def ramp_def)
  have e: "updateInternal 2 3 4 ramp_halo zero_buf = updateInternal 2 3 4 ramp zero_buf"
    using t2 by simp
  show ?thesis using h a b c d e by blast
qed

text \<open>
  Claim C5. Two current buffers that agree on all interior cells \<open>1..rows \<times> 1..columns\<close>, and
  differ arbitrarily on the halo ring, give the same values to every cell that
  \<^verbatim>\<open>updateInternal(2, rows-1, columns, ., .)\<close> writes, whatever the next buffers held before;
  started on the same next buffer, the two calls return the same buffer.
\<close>

theorem updateInternal_halo_independent:
  assumes agree: "\<forall>jx jy. 1 \<le> jx \<and> jx \<le> rows \<and> 1 \<le> jy \<and> jy \<le> columns \<longrightarrow>
             cell (columns + 2) cur jx jy = cell (columns + 2) cur' jx jy"
  shows "(2 \<le> ix \<and> ix \<le> rows - 1 \<and> 2 \<le> iy \<and> iy \<le> columns - 1 \<longrightarrow>
            cell (columns + 2) (updateInternal 2 (rows - 1) columns cur nxt) ix iy =
            cell (columns + 2) (updateInternal 2 (rows - 1) columns cur' nxt') ix iy) \<and>
         updateInternal 2 (rows - 1) columns cur nxt = updateInternal 2 (rows - 1) columns cur' nxt"
proof (intro conjI impI)
  assume c: "2 \<le> ix \<and> ix \<le> rows - 1 \<and> 2 \<le> iy \<and> iy \<le> columns - 1"
  then have "ix * (columns + 2) + iy \<in> offs (columns + 2) ({2..rows - 1} \<times> {2..columns - 1})"
    by (force simp: offs_def)
  then show "cell (columns + 2) (updateInternal 2 (rows - 1) columns cur nxt) ix iy =
             cell (columns + 2) (updateInternal 2 (rows - 1) columns cur' nxt') ix iy"
    unfolding cell_def by (rule interior_written_agree [OF agree])
next
  show "updateInternal 2 (rows - 1) columns cur nxt = updateInternal 2 (rows - 1) columns cur' nxt"
    by (rule interior_reads_only [OF agree])
qed

theorem updateInternal_halo_independent_witness:
  "ramp 0 \<noteq> ramp_halo 0 \<and>
   updateInternal 2 3 4 ramp zero_buf = updateInternal 2 3 4 ramp_halo zero_buf \<and>
   cell 6 (updateInternal 2 3 4 ramp zero_buf) 2 2 =
     cell 6 (updateInternal 2 3 4 ramp_halo (spike 0)) 2 2"
proof -
  have agree: "\<forall>jx jy. 1 \<le> jx \<and> jx \<le> 4 \<and> 1 \<le> jy \<and> jy \<le> 4 \<longrightarrow>
                 cell (4 + 2) ramp jx jy = cell (4 + 2) ramp_halo jx jy"
    by (auto simp: cell_def ramp_halo_def)
  note t = updateInternal_halo_independent [OF agree, where nxt = zero_buf and nxt' = "spike 0"
      and ix = 2 and iy = 2]
  have a: "cell 6 (updateInternal 2 3 4 ramp zero_buf) 2 2 =
     cell 6 (updateInternal 2 3 4 ramp_halo (spike 0)) 2 2"
    using t [THEN conjunct1] by simp
  have b: "updateInternal 2 3 4 ramp zero_buf = updateInternal 2 3 4 ramp_halo zero_buf"
    using t [THEN conjunct2] by simp
  have c: "ramp 0 \<noteq> ramp_halo 0" by (simp add: ramp_halo_def ramp_def)
  show ?thesis using a b c by blast
qed

section \<open>The exterior pass\<close>

text \<open>
  Claim C1 (for every block with \<open>rows \<ge> 2\<close> and \<open>columns \<ge> 2\<close> and every combination of real
  and absent neighbors, the exterior pass leaves the row or column on a domain edge
  unwritten) does not hold of the code for a block of two rows with no neighbor above and
  none below: \<^verbatim>\<open>updateExternal\<close> then runs its "first row" loop on row \<open>start + 1 = 2\<close> and
  its "last row" loop on row \<open>end - 3 = 1\<close>, the two rows on the domain edges. This is the
  one block of a grid of 2 by 3 cells run on one process: \<open>rows = 2\<close>, \<open>columns = 3\<close>, no
  neighbor at all. The cells \<open>(1, 2)\<close> and \<open>(2, 2)\<close> of the two boundary rows are overwritten
  with stencil values.
\<close>

theorem updateExternal_two_rows_writes_boundary:
  "\<not> isPrime 1 \<and> (2 * 3) mod (1::int) = 0 \<and> partition_dims 2 3 1 = Some (1, 1) \<and>
   (2::int) div 1 = 2 \<and> (3::int) div 1 = 3 \<and>
   task_neighbors 1 1 1 0 =
     \<lparr>nb_left = MPI_PROC_NULL, nb_right = MPI_PROC_NULL, nb_up = MPI_PROC_NULL,
      nb_down = MPI_PROC_NULL\<rparr> \<and>
   cell 5 (updateExternal 1 2 3 MPI_PROC_NULL MPI_PROC_NULL MPI_PROC_NULL MPI_PROC_NULL
             (spike 7) zero_buf) 1 2 = 3 / 5 \<and>
   cell 5 (updateExternal 1 2 3 MPI_PROC_NULL MPI_PROC_NULL MPI_PROC_NULL MPI_PROC_NULL
             (spike 7) zero_buf) 2 2 = 1 / 10 \<and>
   cell 5 zero_buf 1 2 = 0 \<and> cell 5 zero_buf 2 2 = 0"
proof -
  have a: "\<not> isPrime 1" by (simp add: isPrime_def)
  have b: "(2 * 3) mod (1::int) = 0" "(2::int) div 1 = 2" "(3::int) div 1 = 3" by simp_all
  have c: "task_neighbors 1 1 1 0 =
     \<lparr>nb_left = MPI_PROC_NULL, nb_right = MPI_PROC_NULL, nb_up = MPI_PROC_NULL,
      nb_down = MPI_PROC_NULL\<rparr>"
    by (simp add: task_neighbors_def master_neighbors_def MASTER_def)
  have d: "cell 5 (updateExternal 1 2 3 MPI_PROC_NULL MPI_PROC_NULL MPI_PROC_NULL MPI_PROC_NULL
             (spike 7) zero_buf) 1 2 = 3 / 5"
    by (simp add: cell_def updateExternal_def row_loop_def col_loop_def Let_def stencil_def
        parms_def spike_def zero_buf_def)
  have e: "cell 5 (updateExternal 1 2 3 MPI_PROC_NULL MPI_PROC_NULL MPI_PROC_NULL MPI_PROC_NULL
             (spike 7) zero_buf) 2 2 = 1 / 10"
    by (simp add: cell_def updateExternal_def row_loop_def col_loop_def Let_def stencil_def
        parms_def spike_def zero_buf_def)
  have f: "cell 5 zero_buf 1 2 = 0" "cell 5 zero_buf 2 2 = 0" by (simp_all add: cell_def zero_buf_def)
  show ?thesis using a b partition_dims_2_3_1 c d e f by (intro conjI)
qed

text \<open>
  For every other block the claim holds. For every block with \<open>rows \<ge> 2\<close> and
  \<open>columns \<ge> 2\<close> and every combination of real and absent neighbors, one call
  \<^verbatim>\<open>updateExternal(1, rows, columns, \<dots>)\<close> writes the stencil value of the current buffer to
  every cell of the exterior ring that is due an update (with four real neighbors: the whole
  ring). Provided a block of two rows has a neighbor above or below, and a block of two
  columns has a neighbor to its left or right, the cells written are exactly the perimeter
  of the rectangle obtained by narrowing each side without a neighbor by one cell, so the
  row or column on a domain edge is left unwritten.
\<close>

lemma updateExternal_ring:
  assumes "2 \<le> rows" "2 \<le> columns"
  shows "(ring_due rows columns right left up down ix iy \<longrightarrow>
            cell (columns + 2) (updateExternal 1 rows columns right left up down cur nxt) ix iy =
              cell (columns + 2) cur ix iy +
                 1 / 10 * (cell (columns + 2) cur (ix + 1) iy + cell (columns + 2) cur (ix - 1) iy
                             - 2 * cell (columns + 2) cur ix iy) +
                 1 / 10 * (cell (columns + 2) cur ix (iy + 1) + cell (columns + 2) cur ix (iy - 1)
                             - 2 * cell (columns + 2) cur ix iy)) \<and>
         ((rows = 2 \<longrightarrow> up \<noteq> MPI_PROC_NULL \<or> down \<noteq> MPI_PROC_NULL) \<and>
          (columns = 2 \<longrightarrow> left \<noteq> MPI_PROC_NULL \<or> right \<noteq> MPI_PROC_NULL) \<and>
          0 \<le> iy \<and> iy \<le> columns + 1 \<longrightarrow>
            cell (columns + 2) (updateExternal 1 rows columns right left up down cur nxt) ix iy =
               (if ext_perimeter rows columns right left up down ix iy
                then stencil (columns + 2) cur ix iy else cell (columns + 2) nxt ix iy) \<and>
            (up = MPI_PROC_NULL \<and> ix = 1 \<or> down = MPI_PROC_NULL \<and> ix = rows \<or>
             left = MPI_PROC_NULL \<and> iy = 1 \<or> right = MPI_PROC_NULL \<and> iy = columns \<longrightarrow>
             cell (columns + 2) (updateExternal 1 rows columns right left up down cur nxt) ix iy =
               cell (columns + 2) nxt ix iy))"
proof -
  have c1: "1 \<le> columns" using assms by simp
  have cov: "cell (columns + 2) (updateExternal 1 rows columns right left up down cur nxt) ix iy =
              cell (columns + 2) cur ix iy +
                 1 / 10 * (cell (columns + 2) cur (ix + 1) iy + cell (columns + 2) cur (ix - 1) iy
                             - 2 * cell (columns + 2) cur ix iy) +
                 1 / 10 * (cell (columns + 2) cur ix (iy + 1) + cell (columns + 2) cur ix (iy - 1)
                             - 2 * cell (columns + 2) cur ix iy)"
    if due: "ring_due rows columns right left up down ix iy"
  proof -
    have iy: "0 \<le> iy" "iy \<le> columns + 1" using due by (auto simp: ring_due_def)
    have "(ix, iy) \<in> ext_cells rows columns right left up down"
      by (rule ring_due_ext_cells [OF assms due])
    then show ?thesis
      using updateExternal_cell [OF c1 iy, of rows right left up down cur nxt ix]
      by (simp add: stencil_cell)
  qed
  have exact: "cell (columns + 2) (updateExternal 1 rows columns right left up down cur nxt) ix iy =
               (if ext_perimeter rows columns right left up down ix iy
                then stencil (columns + 2) cur ix iy else cell (columns + 2) nxt ix iy)"
    if nd: "rows = 2 \<longrightarrow> up \<noteq> MPI_PROC_NULL \<or> down \<noteq> MPI_PROC_NULL"
           "columns = 2 \<longrightarrow> left \<noteq> MPI_PROC_NULL \<or> right \<noteq> MPI_PROC_NULL"
      and iy: "0 \<le> iy" "iy \<le> columns + 1"
    using updateExternal_cell [OF c1 iy, of rows right left up down cur nxt ix]
      ext_cells_perimeter [OF assms nd, of ix iy]
    by simp
  have frame: "cell (columns + 2) (updateExternal 1 rows columns right left up down cur nxt) ix iy =
               cell (columns + 2) nxt ix iy"
    if nd: "rows = 2 \<longrightarrow> up \<noteq> MPI_PROC_NULL \<or> down \<noteq> MPI_PROC_NULL"
           "columns = 2 \<longrightarrow> left \<noteq> MPI_PROC_NULL \<or> right \<noteq> MPI_PROC_NULL"
      and iy: "0 \<le> iy" "iy \<le> columns + 1"
      and side: "up = MPI_PROC_NULL \<and> ix = 1 \<or> down = MPI_PROC_NULL \<and> ix = rows \<or>
                left = MPI_PROC_NULL \<and> iy = 1 \<or> right = MPI_PROC_NULL \<and> iy = columns"
  proof -
    have "\<not> ext_perimeter rows columns right left up down ix iy"
      using side assms
      unfolding ext_perimeter_def top_row_def bottom_row_def left_col_def right_col_def
      by auto
    then show ?thesis using exact [OF nd iy] by simp
  qed
  show ?thesis using cov exact frame by blast
qed

lemma updateExternal_ring_example:
  "(2::int) \<le> 3 \<and>
   ring_due 3 3 1 MPI_PROC_NULL MPI_PROC_NULL 2 3 3 \<and>
   cell 5 (updateExternal 1 3 3 1 MPI_PROC_NULL MPI_PROC_NULL 2 ramp zero_buf) 3 3 = 18 \<and>
   cell 5 (updateExternal 1 3 3 1 MPI_PROC_NULL MPI_PROC_NULL 2 ramp zero_buf) 2 2 = 12 \<and>
   cell 5 (updateExternal 1 3 3 1 MPI_PROC_NULL MPI_PROC_NULL 2 ramp zero_buf) 1 2 = 0"
proof -
  have h: "(2::int) \<le> 3" by simp
  have due: "ring_due 3 3 1 MPI_PROC_NULL MPI_PROC_NULL 2 3 3"
    by (simp add: ring_due_def MPI_PROC_NULL_def)
  note t = updateExternal_ring [where right = 1 and left = MPI_PROC_NULL
      and up = MPI_PROC_NULL and down = 2 and cur = ramp and nxt = zero_buf, OF h h]
  have a: "cell 5 (updateExternal 1 3 3 1 MPI_PROC_NULL MPI_PROC_NULL 2 ramp zero_buf) 3 3 = 18"
    using t [where ix = 3 and iy = 3, THEN conjunct1, THEN mp, OF due]
    by (simp add: cell_def ramp_def)
  have nd: "((3::int) = 2 \<longrightarrow> MPI_PROC_NULL \<noteq> MPI_PROC_NULL \<or> (2::int) \<noteq> MPI_PROC_NULL) \<and>
          ((3::int) = 2 \<longrightarrow> MPI_PROC_NULL \<noteq> MPI_PROC_NULL \<or> (1::int) \<noteq> MPI_PROC_NULL) \<and>
          (0::int) \<le> 2 \<and> (2::int) \<le> 3 + 1"
    by simp
  note t2 = t [where iy = 2 and ix = 2, THEN conjunct2, THEN mp, OF nd]
  note t3 = t [where iy = 2 and ix = 1, THEN conjunct2, THEN mp, OF nd]
  have p: "ext_perimeter 3 3 1 MPI_PROC_NULL MPI_PROC_NULL 2 2 2"
    by (simp add: ext_perimeter_def top_row_def bottom_row_def left_col_def right_col_def
        MPI_PROC_NULL_def)
  have b: "cell 5 (updateExternal 1 3 3 1 MPI_PROC_NULL MPI_PROC_NULL 2 ramp zero_buf) 2 2 = 12"
    using t2 [THEN conjunct1] p
    by (simp add: stencil_def parms_def cell_def ramp_def)
  have c: "cell 5 (updateExternal 1 3 3 1 MPI_PROC_NULL MPI_PROC_NULL 2 ramp zero_buf) 1 2 = 0"
    using t3 [THEN conjunct2]
    by (simp add: cell_def zero_buf_def)
  show ?thesis using h due a b c by blast
qed

section \<open>The halo ring\<close>

text \<open>
  Claim C9 (neither pass ever writes a cell of the outer halo ring, for every block shape and
  neighbor configuration) does not hold of the code for a block of a single row: with
  \<open>rows = columns = 1\<close>, real neighbors left, right and above and none below,
  \<^verbatim>\<open>updateExternal\<close> runs its "last row" loop on row \<open>end - 3 = 0\<close> and writes the halo cell
  \<open>(0, 1)\<close>, reading the offset \<open>-2\<close> in front of the buffer on the way. This is the block
  of rank 81601 when the program as shipped (256 by 320 cells) runs on 81920 processes.
\<close>

theorem updateExternal_one_row_writes_halo:
  "\<not> isPrime 81920 \<and> (NXPROB * NYPROB) mod 81920 = 0 \<and>
   partition_dims NXPROB NYPROB 81920 = Some (256, 320) \<and>
   NXPROB div 256 = 1 \<and> NYPROB div 320 = 1 \<and>
   task_neighbors 81920 256 320 81601 =
     \<lparr>nb_left = 81600, nb_right = 81602, nb_up = 81281, nb_down = MPI_PROC_NULL\<rparr> \<and>
   cell 3 (updateExternal 1 1 1 81602 81600 81281 MPI_PROC_NULL (spike 4) zero_buf) 0 1 = 1 / 10 \<and>
   cell 3 zero_buf 0 1 = 0"
proof -
  have a: "\<not> isPrime 81920" by (simp add: isPrime_def)
  have b: "(NXPROB * NYPROB) mod 81920 = 0" by (simp add: NXPROB_def NYPROB_def)
  have c: "NXPROB div 256 = 1" "NYPROB div 320 = 1" by (simp_all add: NXPROB_def NYPROB_def)
  have d: "task_neighbors 81920 256 320 81601 =
     \<lparr>nb_left = 81600, nb_right = 81602, nb_up = 81281, nb_down = MPI_PROC_NULL\<rparr>"
    by (simp add: task_neighbors_def worker_neighbors_def MASTER_def)
  have e: "cell 3 (updateExternal 1 1 1 81602 81600 81281 MPI_PROC_NULL (spike 4) zero_buf) 0 1
             = 1 / 10"
    by (simp add: cell_def updateExternal_def row_loop_def col_loop_def Let_def stencil_def
        parms_def MPI_PROC_NULL_def spike_def zero_buf_def)
  have f: "cell 3 zero_buf 0 1 = 0" by (simp add: cell_def zero_buf_def)
  show ?thesis using a b partition_dims_81920 c d e f by (intro conjI)
qed

text \<open>
  For blocks of at least two rows and two columns the claim holds: both passes write only
  cells \<open>(ix, iy)\<close> with \<open>1 \<le> ix \<le> rows\<close> and \<open>1 \<le> iy \<le> columns\<close>.
\<close>

lemma passes_keep_halo:
  assumes "2 \<le> rows" "2 \<le> columns" "0 \<le> iy" "iy \<le> columns + 1"
    and "ix < 1 \<or> rows < ix \<or> iy < 1 \<or> columns < iy"
  shows "cell (columns + 2) (updateInternal 2 (rows - 1) columns cur nxt) ix iy =
           cell (columns + 2) nxt ix iy"
    and "cell (columns + 2) (updateExternal 1 rows columns right left up down cur nxt) ix iy =
           cell (columns + 2) nxt ix iy"
proof -
  have c0: "0 \<le> columns" and c1: "1 \<le> columns" using assms(2) by simp_all
  show "cell (columns + 2) (updateInternal 2 (rows - 1) columns cur nxt) ix iy =
           cell (columns + 2) nxt ix iy"
    using updateInternal_cell [OF c0 assms(3,4), of 2 "rows - 1" cur nxt ix] assms(5) by auto
  have "(ix, iy) \<notin> ext_cells rows columns right left up down"
    using ext_cells_inside [OF assms(1,2), of ix iy right left up down] assms(5) by auto
  then show "cell (columns + 2) (updateExternal 1 rows columns right left up down cur nxt) ix iy =
           cell (columns + 2) nxt ix iy"
    using updateExternal_cell [OF c1 assms(3,4), of rows right left up down cur nxt ix] by simp
qed

section \<open>The partitioner\<close>

text \<open>
  Claim C7. For every worker count \<open>W \<ge> 1\<close> (in particular every one that is not prime) the
  partitioning step returns: the downward scan from \<open>\<lfloor>sqrt W\<rfloor> + 1\<close> stops at the largest
  divisor \<open>x\<close> of \<open>W\<close> with \<open>x \<le> \<lfloor>sqrt W\<rfloor> + 1\<close> (it is at least 1, so the scan never runs
  out), sets \<open>xdim = x\<close> and \<open>ydim = W / x\<close>, and the two are swapped exactly when
  \<open>NY > NX\<close> and \<open>ydim < xdim\<close>; the result satisfies \<open>xdim * ydim = W\<close> and
  \<open>xdim, ydim \<ge> 1\<close>.
\<close>

theorem partition_factor_pair:
  assumes "1 \<le> W"
  shows "\<exists>x xdim ydim.
           find_dims W (floor_sqrt W + 1) = Some (x, W div x) \<and>
           floor_sqrt W = \<lfloor>sqrt (real_of_int W)\<rfloor> \<and>
           1 \<le> x \<and> x \<le> floor_sqrt W + 1 \<and> x dvd W \<and>
           (\<forall>y. y dvd W \<and> 1 \<le> y \<and> y \<le> floor_sqrt W + 1 \<longrightarrow> y \<le> x) \<and>
           partition_dims NX NY W = Some (xdim, ydim) \<and>
           (xdim, ydim) = (if NY > NX \<and> W div x < x then (W div x, x) else (x, W div x)) \<and>
           xdim * ydim = W \<and> 1 \<le> xdim \<and> 1 \<le> ydim"
proof -
  from partition_dims_spec [OF assms, of NX NY]
  obtain x where x: "find_dims W (floor_sqrt W + 1) = Some (x, W div x)" "1 \<le> x"
    "x \<le> floor_sqrt W + 1" "W mod x = 0"
    "\<forall>y. x < y \<and> y \<le> floor_sqrt W + 1 \<longrightarrow> W mod y \<noteq> 0"
    "partition_dims NX NY W =
       Some (if NY > NX \<and> W div x < x then (W div x, x) else (x, W div x))"
    by (elim exE conjE)
  define xdim where "xdim = (if NY > NX \<and> W div x < x then W div x else x)"
  define ydim where "ydim = (if NY > NX \<and> W div x < x then x else W div x)"
  have p: "partition_dims NX NY W = Some (xdim, ydim)"
    using x(6) by (simp add: xdim_def ydim_def)
  have sw: "(xdim, ydim) = (if NY > NX \<and> W div x < x then (W div x, x) else (x, W div x))"
    by (simp add: xdim_def ydim_def)
  note f = partition_dims_facts [OF assms p]
  have sq: "floor_sqrt W = \<lfloor>sqrt (real_of_int W)\<rfloor>"
    using assms by (intro floor_sqrt_real) simp
  have dv: "x dvd W" using x(4) by (simp add: mod_eq_0_iff_dvd)
  have mx: "\<forall>y. y dvd W \<and> 1 \<le> y \<and> y \<le> floor_sqrt W + 1 \<longrightarrow> y \<le> x"
  proof (intro allI impI)
    fix y assume y: "y dvd W \<and> 1 \<le> y \<and> y \<le> floor_sqrt W + 1"
    show "y \<le> x"
    proof (rule ccontr)
      assume "\<not> y \<le> x"
      then have "x < y \<and> y \<le> floor_sqrt W + 1" using y by simp
      moreover from x(5) have "x < y \<and> y \<le> floor_sqrt W + 1 \<longrightarrow> W mod y \<noteq> 0" by (rule spec)
      ultimately have "W mod y \<noteq> 0" by (rule rev_mp)
      with y show False by (simp add: mod_eq_0_iff_dvd)
    qed
  qed
  have "find_dims W (floor_sqrt W + 1) = Some (x, W div x) \<and>
           floor_sqrt W = \<lfloor>sqrt (real_of_int W)\<rfloor> \<and>
           1 \<le> x \<and> x \<le> floor_sqrt W + 1 \<and> x dvd W \<and>
           (\<forall>y. y dvd W \<and> 1 \<le> y \<and> y \<le> floor_sqrt W + 1 \<longrightarrow> y \<le> x) \<and>
           partition_dims NX NY W = Some (xdim, ydim) \<and>
           (xdim, ydim) = (if NY > NX \<and> W div x < x then (W div x, x) else (x, W div x)) \<and>
           xdim * ydim = W \<and> 1 \<le> xdim \<and> 1 \<le> ydim"
    using x(1,2,3) sq dv mx p sw f by (intro conjI)
  then show ?thesis by (intro exI)
qed

theorem partition_factor_pair_witness:
  "(1::int) \<le> 6 \<and> \<not> isPrime 6 \<and> partition_dims NXPROB NYPROB 6 = Some (2, 3) \<and>
   (\<exists>x xdim ydim. find_dims 6 (floor_sqrt 6 + 1) = Some (x, 6 div x) \<and>
      partition_dims NXPROB NYPROB 6 = Some (xdim, ydim) \<and> xdim * ydim = 6)"
proof -
  have h: "(1::int) \<le> 6" by simp
  have a: "\<not> isPrime 6" by (simp add: isPrime_def)
  have b: "partition_dims NXPROB NYPROB 6 = Some (2, 3)"
    by (simp add: partition_dims_def floor_sqrt_def isqrt_from.simps find_dims.simps
        NXPROB_def NYPROB_def)
  from partition_factor_pair [OF h, where NX = NXPROB and NY = NYPROB]
  have c: "\<exists>x xdim ydim. find_dims 6 (floor_sqrt 6 + 1) = Some (x, 6 div x) \<and>
      partition_dims NXPROB NYPROB 6 = Some (xdim, ydim) \<and> xdim * ydim = 6"
    by (elim exE conjE) (intro exI conjI, assumption+)
  show ?thesis using h a b c by (intro conjI)
qed

text \<open>
  Claim C8. For every worker count \<open>W \<ge> 1\<close> that \<^verbatim>\<open>isPrime\<close> does not reject and every
  worker index \<open>i\<close> in \<open>0..W-1\<close>, the master included, with \<open>r = i / ydim\<close> and
  \<open>c = i % ydim\<close>: \<open>up\<close> is \<^verbatim>\<open>MPI_PROC_NULL\<close> iff \<open>r = 0\<close> and \<open>i - ydim\<close> otherwise, \<open>down\<close>
  is the sentinel iff \<open>r = xdim - 1\<close> and \<open>i + ydim\<close> otherwise, \<open>left\<close> is the sentinel iff
  \<open>c = 0\<close> and \<open>i - 1\<close> otherwise, \<open>right\<close> is the sentinel iff \<open>c = ydim - 1\<close> and
  \<open>i + 1\<close> otherwise.
\<close>

theorem neighbors_grid:
  assumes "1 \<le> W" "\<not> isPrime W" "partition_dims NX NY W = Some (xdim, ydim)"
    and "0 \<le> i" "i < W"
  shows "(nb_up (task_neighbors W xdim ydim i) = MPI_PROC_NULL \<longleftrightarrow> i div ydim = 0) \<and>
         (i div ydim \<noteq> 0 \<longrightarrow> nb_up (task_neighbors W xdim ydim i) = i - ydim) \<and>
         (nb_down (task_neighbors W xdim ydim i) = MPI_PROC_NULL \<longleftrightarrow> i div ydim = xdim - 1) \<and>
         (i div ydim \<noteq> xdim - 1 \<longrightarrow> nb_down (task_neighbors W xdim ydim i) = i + ydim) \<and>
         (nb_left (task_neighbors W xdim ydim i) = MPI_PROC_NULL \<longleftrightarrow> i mod ydim = 0) \<and>
         (i mod ydim \<noteq> 0 \<longrightarrow> nb_left (task_neighbors W xdim ydim i) = i - 1) \<and>
         (nb_right (task_neighbors W xdim ydim i) = MPI_PROC_NULL \<longleftrightarrow> i mod ydim = ydim - 1) \<and>
         (i mod ydim \<noteq> ydim - 1 \<longrightarrow> nb_right (task_neighbors W xdim ydim i) = i + 1)"
proof -
  note f = partition_dims_facts [OF assms(1,3)]
  note g = task_neighbors_grid [OF assms]
  note n = neighbor_not_null [OF f(3) assms(4)]
  show ?thesis unfolding g using n by simp
qed

theorem neighbors_grid_witness:
  "(1::int) \<le> 6 \<and> \<not> isPrime 6 \<and> partition_dims NXPROB NYPROB 6 = Some (2, 3) \<and>
   task_neighbors 6 2 3 0 =
     \<lparr>nb_left = MPI_PROC_NULL, nb_right = 1, nb_up = MPI_PROC_NULL, nb_down = 3\<rparr> \<and>
   task_neighbors 6 2 3 5 =
     \<lparr>nb_left = 4, nb_right = MPI_PROC_NULL, nb_up = 2, nb_down = MPI_PROC_NULL\<rparr> \<and>
   nb_up (task_neighbors 6 2 3 4) = 4 - 3 \<and>
   nb_down (task_neighbors 6 2 3 4) = MPI_PROC_NULL"
proof -
  have h: "(1::int) \<le> 6" by simp
  have a: "\<not> isPrime 6" by (simp add: isPrime_def)
  have b: "partition_dims NXPROB NYPROB 6 = Some (2, 3)"
    by (simp add: partition_dims_def floor_sqrt_def isqrt_from.simps find_dims.simps
        NXPROB_def NYPROB_def)
  have i: "(0::int) \<le> 4" "(4::int) < 6" by simp_all
  have c: "task_neighbors 6 2 3 0 =
     \<lparr>nb_left = MPI_PROC_NULL, nb_right = 1, nb_up = MPI_PROC_NULL, nb_down = 3\<rparr>"
    by (simp add: task_neighbors_def master_neighbors_def MASTER_def)
  have d: "task_neighbors 6 2 3 5 =
     \<lparr>nb_left = 4, nb_right = MPI_PROC_NULL, nb_up = 2, nb_down = MPI_PROC_NULL\<rparr>"
    by (simp add: task_neighbors_def worker_neighbors_def MASTER_def)
  from neighbors_grid [OF h a b i]
  have e: "nb_up (task_neighbors 6 2 3 4) = 4 - 3"
    and f: "nb_down (task_neighbors 6 2 3 4) = MPI_PROC_NULL"
    by simp_all
  show ?thesis using h a b c d e f by (intro conjI)
qed

section \<open>Configuration errors\<close>



section \<open>The whole run\<close>

subsection \<open>A four by four grid, one task, one step\<close>

text \<open>
  Claim C4: for \<open>NX = NY = 4\<close>, one task and one step, with \<open>cx = cy = 0.1\<close> and the initial
  field that \<^verbatim>\<open>inidat\<close> builds, \<open>u(i, j) = i * (3 - i) * j * (3 - j)\<close>: after the step every
  boundary cell (\<open>i \<in> {0, 3}\<close> or \<open>j \<in> {0, 3}\<close>) has its initial value, which is 0, and each
  of the four interior cells has the value of the update formula on the initial field (which
  is 16/5). The first conjunct states that \<^verbatim>\<open>inidat\<close> computes the field of the claim.
\<close>

theorem scenario_4x4_one_step:
  "list_all (\<lambda>(i, j). cell 4 (inidat 4 4 zero_buf) i j = real_of_int (i * (3 - i) * j * (3 - j)))
     [(0, 0), (0, 1), (0, 2), (0, 3), (1, 0), (1, 1), (1, 2), (1, 3),
      (2, 0), (2, 1), (2, 2), (2, 3), (3, 0), (3, 1), (3, 2), (3, 3)] \<and>
   list_all (\<lambda>(i, j). final_cell 4 (heat2D 4 4 1 1 (inidat 4 4 zero_buf)) i j =
                        Some (cell 4 (inidat 4 4 zero_buf) i j) \<and>
                      cell 4 (inidat 4 4 zero_buf) i j = 0)
     [(0, 0), (0, 1), (0, 2), (0, 3), (1, 0), (1, 3), (2, 0), (2, 3),
      (3, 0), (3, 1), (3, 2), (3, 3)] \<and>
   list_all (\<lambda>(i, j). final_cell 4 (heat2D 4 4 1 1 (inidat 4 4 zero_buf)) i j =
                        Some (cell 4 (inidat 4 4 zero_buf) i j +
                          1 / 10 * (cell 4 (inidat 4 4 zero_buf) (i + 1) j +
                                    cell 4 (inidat 4 4 zero_buf) (i - 1) j -
                                    2 * cell 4 (inidat 4 4 zero_buf) i j) +
                          1 / 10 * (cell 4 (inidat 4 4 zero_buf) i (j + 1) +
                                    cell 4 (inidat 4 4 zero_buf) i (j - 1) -
                                    2 * cell 4 (inidat 4 4 zero_buf) i j)) \<and>
                      final_cell 4 (heat2D 4 4 1 1 (inidat 4 4 zero_buf)) i j = Some (16 / 5))
     [(1, 1), (1, 2), (2, 1), (2, 2)]"
  by (simp add: one_step_4x4_cell stencil_cell inidat_cell_value zero_buf_def cell_def [of _ "\<lambda>off. 0"])

subsection \<open>The boundary of the global grid\<close>

text \<open>
  Claim C2 says that for every initial field and every number of steps, each boundary cell of
  the gathered grid has its initial value. The program gathers from \<^verbatim>\<open>local[STEPS % 2]\<close>, and
  the boundary cells of \<^verbatim>\<open>local[1]\<close> are never written after the buffer is filled with zeros:
  after an odd number of steps the boundary of the gathered grid is 0, whatever it was at the
  start. On the grid of ones, after one step, cell \<open>(0, 0)\<close> is 0 and was 1.
\<close>

theorem boundary_reset_counterexample:
  "final_cell 4 (heat2D 4 4 1 1 ones_buf) 0 0 = Some 0 \<and> cell 4 ones_buf 0 0 = 1"
  by (simp add: one_step_4x4_cell) (simp add: cell_def ones_buf_def)

text \<open>
  Claim C2, as amended: when the blocks tile the columns exactly (\<open>ydim * columns = NY\<close>),
  have at least two rows and two columns, and the grid is at least three by three, every
  boundary cell of the gathered grid has its initial value after an even number of steps,
  and after any number of steps when the initial boundary is 0 (as it is for the field of
  \<^verbatim>\<open>inidat\<close>). The halo transfers are taken to complete.
\<close>

theorem boundary_cells_fixed:
  assumes W: "1 \<le> W" "\<not> isPrime W" "(NX * NY) mod W = 0"
      "partition_dims NX NY W = Some (xdim, ydim)"
    and shape: "2 \<le> NX div xdim" "2 \<le> NY div ydim" "ydim * (NY div ydim) = NY"
      "3 \<le> NX" "3 \<le> NY"
    and steps: "0 \<le> steps"
      "even steps \<or>
       (\<forall>i j. 0 \<le> i \<and> i < NX \<and> 0 \<le> j \<and> j < NY \<and>
              (i = 0 \<or> i = NX - 1 \<or> j = 0 \<or> j = NY - 1) \<longrightarrow> u (i * NY + j) = 0)"
    and ij: "0 \<le> i" "i < NX" "0 \<le> j" "j < NY" "i = 0 \<or> i = NX - 1 \<or> j = 0 \<or> j = NY - 1"
  shows "final_cell NY (heat2D NX NY steps W u) i j = Some (u (i * NY + j))"
proof -
  define rows where "rows = NX div xdim"
  define columns where "columns = NY div ydim"
  define nb where "nb = task_neighbors W xdim ydim"
  define displs where "displs = displs_loop xdim ydim rows"
  define st0 where "st0 = initial_locals NY rows columns displs u"
  define st1 where
    "st1 = st0 (0 := (\<lambda>k. halo_exchange rows columns (nb k) (st0 0) (st0 0 k)))"
  define stf where "stf = fold (time_step rows columns nb) [1..steps] st1"
  define z where "z = steps mod 2"
  define x where "x = i * NY + j"
  have run: "heat2D NX NY steps W u = Some (gather_field NY rows columns displs W (stf z) u)"
    unfolding z_def stf_def st1_def st0_def displs_def nb_def columns_def rows_def
    by (rule heat2D_unfold [OF W(2,3,4)])
  have c0: "0 \<le> columns" using shape(2) by (simp add: columns_def)
  have nd: "nondegenerate W rows columns nb"
    unfolding rows_def columns_def nb_def
    by (rule grid_nondegenerate [OF W(1,2,4) shape(1,2,4,5)])
  have "frozen_same W rows columns nb st0 st0" by (rule frozen_same_refl)
  then have "frozen_same W rows columns nb st0 st1"
    unfolding st1_def by (rule frozen_same_exchange [OF c0])
  then have fs: "frozen_same W rows columns nb st0 stf"
    unfolding stf_def by (rule frozen_same_steps [OF nd])
  have z01: "z = 0 \<or> z = 1" unfolding z_def by presburger
  have odd_zero: "u x = 0" if "z = 1"
  proof -
    from that have "\<not> even steps" unfolding z_def by presburger
    with steps(2) have "0 \<le> i \<and> i < NX \<and> 0 \<le> j \<and> j < NY \<and>
              (i = 0 \<or> i = NX - 1 \<or> j = 0 \<or> j = NY - 1) \<longrightarrow> u (i * NY + j) = 0"
      by blast
    with ij show ?thesis unfolding x_def by blast
  qed
  have hitval: "stf z k ((r + 1) * (columns + 2) + (c + 1)) = u x"
    if k: "k \<in> set [0..W - 1]" and rc: "0 \<le> r" "r < rows" "0 \<le> c" "c < columns"
      and hit: "displs k * columns + r * NY + c = x" for k r c
  proof -
    from k have k0: "0 \<le> k" and kW: "k < W" by simp_all
    have hit': "displs_loop xdim ydim (NX div xdim) k * (NY div ydim) + r * NY + c = i * NY + j"
      using hit unfolding displs_def rows_def columns_def x_def .
    have fc: "frozen_cell rows columns (nb k) (r + 1) (c + 1)"
      unfolding rows_def columns_def nb_def
      by (rule boundary_is_frozen [OF W(1,2,4) k0 kW _ _ shape(3) _ _ _ _ _ hit' ij(3,4,5)])
        (use shape rc in \<open>simp_all add: rows_def columns_def\<close>)
    from fs k0 kW fc
    have same: "cell (columns + 2) (stf 0 k) (r + 1) (c + 1) =
                  cell (columns + 2) (st0 0 k) (r + 1) (c + 1)"
      "cell (columns + 2) (stf 1 k) (r + 1) (c + 1) =
                  cell (columns + 2) (st0 1 k) (r + 1) (c + 1)"
      unfolding frozen_same_def by blast+
    have iy: "0 \<le> c + 1" "c + 1 \<le> columns + 1" using rc by simp_all
    have s0: "cell (columns + 2) (st0 0 k) (r + 1) (c + 1) = u x"
      using scatter_block_cell [OF c0 iy, of NY rows "displs k * columns" u "\<lambda>off. 0" "r + 1"]
        rc hit
      by (simp add: st0_def initial_locals_def)
    have s1: "cell (columns + 2) (st0 1 k) (r + 1) (c + 1) = 0"
      by (simp add: st0_def initial_locals_def cell_def)
    from z01 show ?thesis
    proof
      assume "z = 0"
      with same(1) s0 show ?thesis by (simp add: cell_def)
    next
      assume "z = 1"
      with same(2) s1 odd_zero show ?thesis by (simp add: cell_def)
    qed
  qed
  have "fold (\<lambda>k u. gather_block NY rows columns (displs k * columns) (stf z k) u) [0..W - 1] u x
          = u x"
    by (rule gather_fold_keeps [where v = "u x"]) (use hitval in simp_all)
  then have "gather_field NY rows columns displs W (stf z) u x = u x"
    by (simp add: gather_field_def)
  then show ?thesis by (simp add: final_cell_def run x_def)
qed

theorem boundary_cells_fixed_witness:
  "(1::int) \<le> 4 \<and> \<not> isPrime 4 \<and> ((4::int) * 4) mod 4 = 0 \<and> partition_dims 4 4 4 = Some (2, 2) \<and>
   (2::int) \<le> 4 div 2 \<and> (2::int) * (4 div 2) = 4 \<and>
   final_cell 4 (heat2D 4 4 3 4 (inidat 4 4 zero_buf)) 0 2 = Some 0 \<and>
   ones_buf (3 * 4 + 1) = 1 \<and>
   final_cell 4 (heat2D 4 4 2 4 ones_buf) 3 1 = Some 1"
proof -
  have h1: "(1::int) \<le> 4" by simp
  have h2: "\<not> isPrime 4" by (simp add: isPrime_def)
  have h3: "((4::int) * 4) mod 4 = 0" by simp
  note h4 = partition_dims_4_4_4
  have h5: "(2::int) \<le> 4 div 2" by simp
  have h6: "(2::int) * (4 div 2) = 4" by simp
  have h7: "(3::int) \<le> 4" by simp
  have zero: "\<forall>i j. 0 \<le> i \<and> i < 4 \<and> 0 \<le> j \<and> j < 4 \<and> (i = 0 \<or> i = 4 - 1 \<or> j = 0 \<or> j = 4 - 1)
                \<longrightarrow> inidat 4 4 zero_buf (i * 4 + j) = 0"
    by (auto simp: inidat_cell)
  have v: "inidat 4 4 zero_buf (0 * 4 + 2) = 0"
    using inidat_cell [of 2 4 4 zero_buf 0] by simp
  have a: "final_cell 4 (heat2D 4 4 3 4 (inidat 4 4 zero_buf)) 0 2 = Some 0"
    using boundary_cells_fixed [OF h1 h2 h3 h4 h5 h5 h6 h7 h7, where steps = 3
        and u = "inidat 4 4 zero_buf" and i = 0 and j = 2] zero v
    by simp
  have b: "final_cell 4 (heat2D 4 4 2 4 ones_buf) 3 1 = Some 1"
    using boundary_cells_fixed [OF h1 h2 h3 h4 h5 h5 h6 h7 h7, where steps = 2
        and u = ones_buf and i = 3 and j = 1]
    by (simp add: ones_buf_def)
  have c: "ones_buf (3 * 4 + 1) = 1" by (simp add: ones_buf_def)
  show ?thesis using h1 h2 h3 h4 h5 h6 a b c by (intro conjI)
qed

subsection \<open>Scatter and gather\<close>

text \<open>
  Claim C6 (scatter places the block of the task at block row \<open>blockRow\<close> and block column
  \<open>blockCol\<close> at offset \<open>(blockRow * rows, blockCol * columns)\<close> of the grid, gather writes it
  back there) does not hold of the code when \<open>ydim * columns \<noteq> NY\<close>: the displacement table
  counts in units of \<open>columns\<close> cells and advances by \<open>rows * ydim\<close> per block row, which is a
  whole number of grid rows only when the blocks tile the columns exactly. The program as
  shipped (256 by 320 cells) on 8192 processes passes the validation, is partitioned into
  64 by 128 blocks of 4 rows and 2 columns, and hands task 128, at block row 1 and block
  column 0, the window that starts at cell \<open>(3, 64)\<close> instead of \<open>(4, 0)\<close>.
\<close>

theorem scatter_misplaces_block:
  "\<not> isPrime 8192 \<and> (NXPROB * NYPROB) mod 8192 = 0 \<and>
   partition_dims NXPROB NYPROB 8192 = Some (64, 128) \<and>
   NXPROB div 64 = 4 \<and> NYPROB div 128 = 2 \<and>
   (128::int) div 128 = 1 \<and> (128::int) mod 128 = 0 \<and>
   displs_loop 64 128 4 128 = 512 \<and>
   cell 4 (initial_locals NYPROB 4 2 (displs_loop 64 128 4) ramp 0 128) 1 1 =
     ramp (3 * NYPROB + 64) \<and>
   ramp (3 * NYPROB + 64) \<noteq> ramp (1 * 4 * NYPROB + 0 * 2)"
proof -
  have a: "\<not> isPrime 8192" by (simp add: isPrime_def)
  have b: "(NXPROB * NYPROB) mod 8192 = 0" by (simp add: NXPROB_def NYPROB_def)
  have c: "NXPROB div 64 = 4" "NYPROB div 128 = 2" by (simp_all add: NXPROB_def NYPROB_def)
  have d: "displs_loop 64 128 4 128 = 512"
    using displs_loop_value [of 128 128 64 4] by simp
  have "cell (2 + 2) (scatter_block NYPROB 4 2 (512 * 2) ramp (\<lambda>off. 0)) 1 1 =
          ramp (512 * 2 + (1 - 1) * NYPROB + (1 - 1))"
    using scatter_block_cell [of 2 1 NYPROB 4 "512 * 2" ramp "\<lambda>off. 0" 1] by simp
  then have e: "cell 4 (initial_locals NYPROB 4 2 (displs_loop 64 128 4) ramp 0 128) 1 1 =
     ramp (3 * NYPROB + 64)"
    by (simp add: initial_locals_def d NYPROB_def)
  have f: "ramp (3 * NYPROB + 64) \<noteq> ramp (1 * 4 * NYPROB + 0 * 2)"
    by (simp add: ramp_def NYPROB_def)
  have g: "(128::int) div 128 = 1" "(128::int) mod 128 = 0" by simp_all
  show ?thesis using a b partition_dims_8192 c g d e f by (intro conjI)
qed

text \<open>
  What does hold: scatter followed by gather, with no step in between, gives back the grid
  as it was, on every cell and for every partition; and when the blocks tile the columns
  exactly, each block is taken from the offset the claim names.
\<close>

lemma scatter_gather_roundtrip:
  assumes "1 \<le> W" "\<not> isPrime W" "(NX * NY) mod W = 0"
    "partition_dims NX NY W = Some (xdim, ydim)" "0 \<le> NY"
  shows "heat2D NX NY 0 W u = Some u"
proof -
  define rows where "rows = NX div xdim"
  define columns where "columns = NY div ydim"
  define nb where "nb = task_neighbors W xdim ydim"
  define displs where "displs = displs_loop xdim ydim rows"
  define st0 where "st0 = initial_locals NY rows columns displs u"
  define loc where "loc = (\<lambda>k. halo_exchange rows columns (nb k) (st0 0) (st0 0 k))"
  note f = partition_dims_facts [OF assms(1,4)]
  have c0: "0 \<le> columns"
    unfolding columns_def using f(3) assms(5) by (simp add: pos_imp_zdiv_nonneg_iff)
  have run: "heat2D NX NY 0 W u = Some (gather_field NY rows columns displs W loc u)"
    unfolding heat2D_unfold [OF assms(2,3,4)] loc_def st0_def displs_def nb_def columns_def
      rows_def
    by simp
  have "gather_field NY rows columns displs W loc u x = u x" for x
    unfolding gather_field_def
  proof (rule gather_fold_keeps [where v = "u x"])
    show "u x = u x" by (rule refl)
    fix k r c
    assume rc: "0 \<le> r" "r < rows" "0 \<le> c" "c < columns"
      and hit: "displs k * columns + r * NY + c = x"
    have iy: "0 \<le> c + 1" "c + 1 \<le> columns + 1" using rc by simp_all
    have "cell (columns + 2) (loc k) (r + 1) (c + 1) = cell (columns + 2) (st0 0 k) (r + 1) (c + 1)"
      unfolding loc_def by (rule halo_exchange_interior [OF c0]) (use rc in simp_all)
    also have "\<dots> = u x"
      using scatter_block_cell [OF c0 iy, of NY rows "displs k * columns" u "\<lambda>off. 0" "r + 1"]
        rc hit
      by (simp add: st0_def initial_locals_def)
    finally show "loc k ((r + 1) * (columns + 2) + (c + 1)) = u x" by (simp add: cell_def)
  qed
  then have "gather_field NY rows columns displs W loc u = u" by (rule ext)
  with run show ?thesis by simp
qed

lemma scatter_block_position:
  assumes "1 \<le> W" "partition_dims NX NY W = Some (xdim, ydim)" "0 \<le> k" "k < W"
    and "ydim * (NY div ydim) = NY"
    and "0 \<le> r" "r < NX div xdim" "0 \<le> c" "c < NY div ydim"
  shows "cell (NY div ydim + 2)
           (initial_locals NY (NX div xdim) (NY div ydim)
              (displs_loop xdim ydim (NX div xdim)) u 0 k) (r + 1) (c + 1) =
         u ((k div ydim * (NX div xdim) + r) * NY + (k mod ydim * (NY div ydim) + c))"
proof -
  let ?R = "NX div xdim" and ?C = "NY div ydim"
  note f = partition_dims_facts [OF assms(1,2)]
  have kxy: "k < xdim * ydim" using assms(4) f(1) by simp
  have d: "displs_loop xdim ydim ?R k = k div ydim * (?R * ydim) + k mod ydim"
    by (rule displs_loop_value [OF f(3) assms(3) kxy])
  have "(k div ydim * (?R * ydim) + k mod ydim) * ?C =
          k div ydim * ?R * (ydim * ?C) + k mod ydim * ?C"
    by (simp add: algebra_simps)
  also have "\<dots> = k div ydim * ?R * NY + k mod ydim * ?C" by (simp only: assms(5))
  finally have start: "displs_loop xdim ydim ?R k * ?C = k div ydim * ?R * NY + k mod ydim * ?C"
    unfolding d .
  have c0: "0 \<le> ?C" using assms(8,9) by simp
  have iy: "0 \<le> c + 1" "c + 1 \<le> ?C + 1" using assms(8,9) by simp_all
  have "cell (?C + 2) (scatter_block NY ?R ?C (displs_loop xdim ydim ?R k * ?C) u (\<lambda>off. 0))
          (r + 1) (c + 1) = u (displs_loop xdim ydim ?R k * ?C + r * NY + c)"
    using scatter_block_cell [OF c0 iy, of NY ?R "displs_loop xdim ydim ?R k * ?C" u
        "\<lambda>off. 0" "r + 1"] assms(6,7,8,9)
    by simp
  also have "displs_loop xdim ydim ?R k * ?C + r * NY + c =
      (k div ydim * ?R + r) * NY + (k mod ydim * ?C + c)"
    unfolding start by (simp add: algebra_simps)
  finally show ?thesis by (simp add: initial_locals_def)
qed
end
